theory Spec2Isabelle
  imports Complex_Main
begin

section \<open>Exceptions and outcomes\<close>

text \<open>
  The exception classes that the handlers of \<^verbatim>\<open>_make_request_with_retry\<close> tell apart.
  \<^verbatim>\<open>openai.RateLimitError\<close> is a subclass of \<^verbatim>\<open>openai.APIError\<close>, which is a subclass of
  \<^verbatim>\<open>Exception\<close>; the \<^verbatim>\<open>except\<close> clauses are tried in that order, so the constructors
  stand for: an instance of \<^verbatim>\<open>RateLimitError\<close>; an instance of \<^verbatim>\<open>APIError\<close> that is not a
  \<^verbatim>\<open>RateLimitError\<close>, with the value of \<^verbatim>\<open>getattr(e, "status", None)\<close>; any other
  \<^verbatim>\<open>Exception\<close>; and a \<^verbatim>\<open>BaseException\<close> outside \<^verbatim>\<open>Exception\<close> (such as
  \<^verbatim>\<open>asyncio.CancelledError\<close>), which no clause catches. The string is the message, and
  distinguishes one raised error from the next.
\<close>

datatype exn =
    RateLimitError string
  | APIError string "int option"
  | OtherException string
  | BaseExc string

text \<open>
  A coroutine either returns, raises, or is still suspended when the observation ends
  (\<open>Pending\<close>).
\<close>

datatype 'a outcome = Returned 'a | Raised exn | Pending


section \<open>The rate limiter (\<^verbatim>\<open>openai.py\<close>, class \<^verbatim>\<open>RateLimiter\<close>)\<close>

text \<open>
  Time stamps are the values of \<^verbatim>\<open>time.time()\<close>, in seconds. The two deques are lists
  with the oldest entry first: \<^verbatim>\<open>popleft\<close> removes the head, \<^verbatim>\<open>append\<close> adds at the end.
\<close>

record RateLimiter =
  requests_per_minute :: int
  tokens_per_minute :: int
  request_bucket :: "real list"
  token_bucket :: "(real \<times> int) list"

definition new_RateLimiter :: "int \<Rightarrow> int \<Rightarrow> RateLimiter" where
  "new_RateLimiter rpm tpm =
     \<lparr>requests_per_minute = rpm, tokens_per_minute = tpm,
      request_bucket = [], token_bucket = []\<rparr>"

text \<open>
  One pass through the body of an \<^verbatim>\<open>acquire_*\<close> coroutine, from reading the clock to
  either the \<^verbatim>\<open>append\<close> or the \<^verbatim>\<open>await asyncio.sleep\<close>. There is no \<^verbatim>\<open>await\<close> inside a
  pass, so on the event loop a pass is atomic.
\<close>

datatype attempt = Admitted | Saturated real | Failed exn

text \<open>
  \<^verbatim>\<open>while self.request_bucket and now - self.request_bucket[0] > 60: popleft()\<close>
\<close>

definition prune_requests :: "real \<Rightarrow> real list \<Rightarrow> real list" where
  "prune_requests now b = dropWhile (\<lambda>t. now - t > 60) b"

text \<open>
  The body of \<^verbatim>\<open>acquire_request\<close> at clock reading \<open>now\<close>. When the limit is reached the
  wait time is computed from \<^verbatim>\<open>self.request_bucket[0]\<close>, which raises \<^verbatim>\<open>IndexError\<close> on an
  empty deque (possible only for a limit \<open>\<le> 0\<close>).
\<close>

definition request_attempt :: "real \<Rightarrow> RateLimiter \<Rightarrow> attempt \<times> RateLimiter" where
  "request_attempt now rl =
     (let b = prune_requests now (request_bucket rl) in
      if int (length b) \<ge> requests_per_minute rl then
        (case b of
           [] \<Rightarrow> (Failed (OtherException ''IndexError: deque index out of range''),
                  rl\<lparr>request_bucket := b\<rparr>)
         | t0 # _ \<Rightarrow> (Saturated (60 - (now - t0)), rl\<lparr>request_bucket := b\<rparr>))
      else (Admitted, rl\<lparr>request_bucket := b @ [now]\<rparr>))"

text \<open>
  \<^verbatim>\<open>acquire_request\<close> as one caller runs it: the list holds the successive readings of
  \<^verbatim>\<open>time.time()\<close> made by this call and its recursive calls, one per pass; the sleep
  between two passes is the step from one reading to the next. When the readings are
  used up the call is still waiting.
\<close>

fun acquire_request :: "real list \<Rightarrow> RateLimiter \<Rightarrow> bool outcome \<times> real list \<times> RateLimiter" where
  "acquire_request [] rl = (Pending, [], rl)"
| "acquire_request (now # clock) rl =
     (case request_attempt now rl of
        (Admitted, rl') \<Rightarrow> (Returned True, clock, rl')
      | (Saturated w, rl') \<Rightarrow> acquire_request clock rl'
      | (Failed e, rl') \<Rightarrow> (Raised e, clock, rl'))"

text \<open>
  \<^verbatim>\<open>while self.token_bucket and now - self.token_bucket[0][0] > 60: popleft()\<close>
\<close>

definition prune_tokens :: "real \<Rightarrow> (real \<times> int) list \<Rightarrow> (real \<times> int) list" where
  "prune_tokens now b = dropWhile (\<lambda>(t, _). now - t > 60) b"

text \<open>
  The body of \<^verbatim>\<open>acquire_tokens\<close>. The wait is guarded by \<^verbatim>\<open>if self.token_bucket:\<close>; with
  an empty deque control falls through to the \<^verbatim>\<open>append\<close>.
\<close>

definition token_attempt :: "real \<Rightarrow> int \<Rightarrow> RateLimiter \<Rightarrow> attempt \<times> RateLimiter" where
  "token_attempt now estimated_tokens rl =
     (let b = prune_tokens now (token_bucket rl);
          current_tokens = sum_list (map snd b) in
      if current_tokens + estimated_tokens > tokens_per_minute rl then
        (case b of
           [] \<Rightarrow> (Admitted, rl\<lparr>token_bucket := b @ [(now, estimated_tokens)]\<rparr>)
         | (t0, _) # _ \<Rightarrow> (Saturated (60 - (now - t0)), rl\<lparr>token_bucket := b\<rparr>))
      else (Admitted, rl\<lparr>token_bucket := b @ [(now, estimated_tokens)]\<rparr>))"

fun acquire_tokens :: "int \<Rightarrow> real list \<Rightarrow> RateLimiter \<Rightarrow> bool outcome \<times> real list \<times> RateLimiter" where
  "acquire_tokens estimated_tokens [] rl = (Pending, [], rl)"
| "acquire_tokens estimated_tokens (now # clock) rl =
     (case token_attempt now estimated_tokens rl of
        (Admitted, rl') \<Rightarrow> (Returned True, clock, rl')
      | (Saturated w, rl') \<Rightarrow> acquire_tokens estimated_tokens clock rl'
      | (Failed e, rl') \<Rightarrow> (Raised e, clock, rl'))"


section \<open>Schedules of passes and trailing windows\<close>

text \<open>
  Any number of callers may be inside \<^verbatim>\<open>acquire_request\<close> at once, each suspended in its
  sleep between two passes. The event loop runs the passes one after the other, so what
  the limiter sees is a schedule: the clock readings of the passes in the order they run,
  whoever makes them. \<open>request_passes\<close> runs a schedule and collects, beside the limiter,
  every time stamp that was ever appended (the deque forgets the pruned ones).
\<close>

fun request_passes :: "real list \<Rightarrow> RateLimiter \<Rightarrow> real list \<Rightarrow> RateLimiter \<times> real list" where
  "request_passes [] rl recorded = (rl, recorded)"
| "request_passes (now # later) rl recorded =
     (case request_attempt now rl of
        (Admitted, rl') \<Rightarrow> request_passes later rl' (recorded @ [now])
      | (_, rl') \<Rightarrow> request_passes later rl' recorded)"

text \<open>The same for \<^verbatim>\<open>acquire_tokens\<close>: a pass comes with its \<^verbatim>\<open>estimated_tokens\<close>.\<close>

fun token_passes ::
  "(real \<times> int) list \<Rightarrow> RateLimiter \<Rightarrow> (real \<times> int) list \<Rightarrow> RateLimiter \<times> (real \<times> int) list" where
  "token_passes [] rl recorded = (rl, recorded)"
| "token_passes ((now, estimated_tokens) # later) rl recorded =
     (case token_attempt now estimated_tokens rl of
        (Admitted, rl') \<Rightarrow> token_passes later rl' (recorded @ [(now, estimated_tokens)])
      | (_, rl') \<Rightarrow> token_passes later rl' recorded)"

text \<open>The trailing 60-second window that ends at \<open>t\<close>, both ends included.\<close>

definition in_window :: "real \<Rightarrow> real \<Rightarrow> bool" where
  "in_window t ts \<longleftrightarrow> t - 60 \<le> ts \<and> ts \<le> t"

definition requests_in_window :: "real \<Rightarrow> real list \<Rightarrow> int" where
  "requests_in_window t recorded = int (length (filter (in_window t) recorded))"

definition usage_in_window :: "real \<Rightarrow> (real \<times> int) list \<Rightarrow> (real \<times> int) list" where
  "usage_in_window t recorded = filter (\<lambda>(ts, _). in_window t ts) recorded"

definition tokens_in_window :: "real \<Rightarrow> (real \<times> int) list \<Rightarrow> int" where
  "tokens_in_window t recorded = sum_list (map snd (usage_in_window t recorded))"

text \<open>
  What holds of the limiter and the recorded history after a pass at reading \<open>lo\<close>: the
  deque is the part of the history inside the window that ends at \<open>lo\<close>.
\<close>

definition request_inv :: "int \<Rightarrow> real \<Rightarrow> RateLimiter \<Rightarrow> real list \<Rightarrow> bool" where
  "request_inv R lo rl recorded \<longleftrightarrow>
     requests_per_minute rl = R \<and> sorted recorded \<and> (\<forall>ts\<in>set recorded. ts \<le> lo)
     \<and> request_bucket rl = filter (in_window lo) recorded
     \<and> (\<forall>t. requests_in_window t recorded \<le> R)"

definition token_inv :: "int \<Rightarrow> real \<Rightarrow> RateLimiter \<Rightarrow> (real \<times> int) list \<Rightarrow> bool" where
  "token_inv T lo rl recorded \<longleftrightarrow>
     tokens_per_minute rl = T \<and> sorted (map fst recorded) \<and> (\<forall>e\<in>set recorded. fst e \<le> lo)
     \<and> token_bucket rl = usage_in_window lo recorded"


section \<open>Token estimate (\<^verbatim>\<open>OpenAIProvider._estimate_tokens\<close>)\<close>

text \<open>\<^verbatim>\<open>return max(1, len(text) // 4)\<close>\<close>

definition estimate_tokens :: "string \<Rightarrow> int" where
  "estimate_tokens text = max 1 (int (length text) div 4)"

text \<open>
  The arguments of one wrapped request, as far as \<^verbatim>\<open>_make_request_with_retry\<close> looks at
  them: the positional arguments (a string or something else), the \<^verbatim>\<open>messages\<close> keyword
  (a list of dictionaries, each an association list) and the \<^verbatim>\<open>max_tokens\<close> keyword.
\<close>

datatype pyarg = PyStr string | PyOther

record call_args =
  args :: "pyarg list"
  messages :: "(string \<times> string) list list option"
  max_tokens :: "int option"

text \<open>\<^verbatim>\<open>" ".join(parts)\<close>\<close>

fun join_space :: "string list \<Rightarrow> string" where
  "join_space [] = []"
| "join_space [s] = s"
| "join_space (s # t # rest) = s @ '' '' @ join_space (t # rest)"

text \<open>\<^verbatim>\<open>msg.get("content", "")\<close>\<close>

definition content_of :: "(string \<times> string) list \<Rightarrow> string" where
  "content_of msg = (case map_of msg ''content'' of None \<Rightarrow> [] | Some c \<Rightarrow> c)"

definition prompt_text :: "call_args \<Rightarrow> string" where
  "prompt_text c =
     (case messages c of
        Some msgs \<Rightarrow> join_space (map content_of msgs)
      | None \<Rightarrow>
          (case args c of
             PyStr s # _ \<Rightarrow> s
           | _ \<Rightarrow> []))"

text \<open>
  \<^verbatim>\<open>estimated_tokens = self._estimate_tokens(prompt_text)\<close>, then
  \<^verbatim>\<open>estimated_tokens += kwargs.get("max_tokens", 150)\<close>
\<close>

definition requested_max_tokens :: "call_args \<Rightarrow> int" where
  "requested_max_tokens c = (case max_tokens c of None \<Rightarrow> 150 | Some t \<Rightarrow> t)"

definition estimated_tokens_of :: "call_args \<Rightarrow> int" where
  "estimated_tokens_of c = estimate_tokens (prompt_text c) + requested_max_tokens c"

text \<open>The spec's formula: \<open>ceil(L / 4) + T\<close>.\<close>

definition spec_estimate :: "nat \<Rightarrow> int \<Rightarrow> int" where
  "spec_estimate L T = \<lceil>real L / 4\<rceil> + T"


section \<open>Retry wrapper (\<^verbatim>\<open>OpenAIProvider._make_request_with_retry\<close>)\<close>

text \<open>
  What one run of the wrapper does, in order: the two admission calls, each invocation of
  the wrapped function (numbered from 0) and each back-off sleep with its duration.
\<close>

datatype event = AcquireRequest | AcquireTokens int | Invoke nat | Sleep real

fun is_invoke :: "event \<Rightarrow> bool" where
  "is_invoke (Invoke _) = True"
| "is_invoke _ = False"

fun is_acquire_request :: "event \<Rightarrow> bool" where
  "is_acquire_request AcquireRequest = True"
| "is_acquire_request _ = False"

fun is_acquire_tokens :: "event \<Rightarrow> bool" where
  "is_acquire_tokens (AcquireTokens _) = True"
| "is_acquire_tokens _ = False"

definition invocations :: "event list \<Rightarrow> nat" where
  "invocations evs = length (filter is_invoke evs)"

definition admissions :: "event list \<Rightarrow> nat" where
  "admissions evs = length (filter is_acquire_request evs)"

definition token_admissions :: "event list \<Rightarrow> nat" where
  "token_admissions evs = length (filter is_acquire_tokens evs)"

text \<open>
  The part of the provider that the wrapper reads: \<^verbatim>\<open>self.rate_limiter\<close>,
  \<^verbatim>\<open>self.max_retries\<close> and \<^verbatim>\<open>self.retry_delay\<close>.
\<close>

record OpenAIProvider =
  rate_limiter :: RateLimiter
  max_retries :: int
  retry_delay :: real

text \<open>
  \<^verbatim>\<open>wait_time = self.retry_delay * (2**attempt)\<close>, slept only under the condition of the
  handler.
\<close>

definition backoff :: "bool \<Rightarrow> real \<Rightarrow> nat \<Rightarrow> event list" where
  "backoff cond delay attempt = (if cond then [Sleep (delay * 2 ^ attempt)] else [])"

text \<open>
  The \<^verbatim>\<open>for attempt in range(self.max_retries)\<close> loop over the attempts still to run, with
  \<^verbatim>\<open>last_error\<close> as accumulator. The wrapped function is stateful: \<open>request_func k\<close> is
  what its invocation number \<open>k\<close> does. Each attempt invokes it once, so attempt \<open>k\<close> is
  invocation \<open>k\<close>. The \<^verbatim>\<open>RateLimitError\<close> and \<^verbatim>\<open>APIError\<close> handlers set \<^verbatim>\<open>last_error\<close> and
  fall out of the \<^verbatim>\<open>try\<close> into the next iteration; the \<^verbatim>\<open>Exception\<close> handler ends the
  loop with \<^verbatim>\<open>break\<close>; a \<^verbatim>\<open>BaseException\<close> is not caught. After the loop \<^verbatim>\<open>last_error\<close>
  is raised, or a \<^verbatim>\<open>RuntimeError\<close> when it is \<^verbatim>\<open>None\<close>.
\<close>

fun retry_loop ::
  "int \<Rightarrow> real \<Rightarrow> (nat \<Rightarrow> exn + 'a) \<Rightarrow> nat list \<Rightarrow> exn option \<Rightarrow> 'a outcome \<times> event list" where
  "retry_loop mr delay request_func [] last_error =
     (case last_error of
        Some e \<Rightarrow> (Raised e, [])
      | None \<Rightarrow> (Raised (OtherException ''RuntimeError: OpenAI request failed for unknown reason''), []))"
| "retry_loop mr delay request_func (attempt # rest) last_error =
     (case request_func attempt of
        Inr v \<Rightarrow> (Returned v, [Invoke attempt])
      | Inl (RateLimitError m) \<Rightarrow>
          (let (r, evs) = retry_loop mr delay request_func rest (Some (RateLimitError m))
           in (r, Invoke attempt # backoff (int attempt < mr - 1) delay attempt @ evs))
      | Inl (APIError m status_code) \<Rightarrow>
          (let (r, evs) = retry_loop mr delay request_func rest (Some (APIError m status_code))
           in (r, Invoke attempt #
                  backoff (int attempt < mr - 1 \<and> status_code \<noteq> None \<and> the status_code \<ge> 500)
                    delay attempt @ evs))
      | Inl (OtherException m) \<Rightarrow> (Raised (OtherException m), [Invoke attempt])
      | Inl (BaseExc m) \<Rightarrow> (Raised (BaseExc m), [Invoke attempt]))"

text \<open>
  The whole wrapper: estimate, \<^verbatim>\<open>await self.rate_limiter.acquire_request()\<close>,
  \<^verbatim>\<open>await self.rate_limiter.acquire_tokens(estimated_tokens)\<close>, then the loop over
  \<^verbatim>\<open>range(self.max_retries)\<close>. An exception of an admission call leaves the wrapper; an
  admission call that is still waiting leaves the wrapper pending.
\<close>

definition make_request_with_retry ::
  "OpenAIProvider \<Rightarrow> call_args \<Rightarrow> (nat \<Rightarrow> exn + 'a) \<Rightarrow> real list
     \<Rightarrow> 'a outcome \<times> event list \<times> RateLimiter" where
  "make_request_with_retry p c request_func clock =
     (let estimated_tokens = estimated_tokens_of c in
      case acquire_request clock (rate_limiter p) of
        (Raised e, _, rl1) \<Rightarrow> (Raised e, [AcquireRequest], rl1)
      | (Pending, _, rl1) \<Rightarrow> (Pending, [AcquireRequest], rl1)
      | (Returned _, clock1, rl1) \<Rightarrow>
          (case acquire_tokens estimated_tokens clock1 rl1 of
             (Raised e, _, rl2) \<Rightarrow> (Raised e, [AcquireRequest, AcquireTokens estimated_tokens], rl2)
           | (Pending, _, rl2) \<Rightarrow> (Pending, [AcquireRequest, AcquireTokens estimated_tokens], rl2)
           | (Returned _, _, rl2) \<Rightarrow>
               (let (r, evs) = retry_loop (max_retries p) (retry_delay p) request_func
                                 [0..<nat (max_retries p)] None
                in (r, [AcquireRequest, AcquireTokens estimated_tokens] @ evs, rl2))))"


text \<open>
  The environment in which both admission calls of the wrapper come through: the limiter
  admits at least one request per minute, and the clock has a reading \<open>t1\<close> more than 60
  seconds after every recorded request and, later, a reading \<open>t2\<close> more than 60 seconds
  after every recorded token usage.
\<close>

definition clock_clears :: "RateLimiter \<Rightarrow> real list \<Rightarrow> bool" where
  "clock_clears rl clock \<longleftrightarrow>
     1 \<le> requests_per_minute rl \<and>
     (\<exists>c1 t1 c2 t2. clock = c1 @ t1 # c2 @ [t2]
        \<and> (\<forall>ts\<in>set (request_bucket rl). t1 - ts > 60)
        \<and> (\<forall>e\<in>set (token_bucket rl). t2 - fst e > 60))"


section \<open>Provider registry (\<^verbatim>\<open>router.py\<close>, class \<^verbatim>\<open>AIRouter\<close>)\<close>

text \<open>
  The settings that \<^verbatim>\<open>setup_providers\<close> branches on. The remaining settings are only
  handed to the constructors.
\<close>

record ai_settings =
  ollama_enabled :: bool
  openai_enabled :: bool
  openai_api_key :: "string option"
  huggingface_enabled :: bool
  environment :: string

text \<open>
  The router: the dictionary \<^verbatim>\<open>self.providers\<close> and \<^verbatim>\<open>self.default_provider\<close>, as
  \<^verbatim>\<open>__init__\<close> sets them before it calls \<^verbatim>\<open>setup_providers\<close>.
\<close>

record 'p AIRouter =
  providers :: "string \<rightharpoonup> 'p"
  default_provider :: "string option"

definition new_AIRouter :: "'p AIRouter" where
  "new_AIRouter = \<lparr>providers = Map.empty, default_provider = None\<rparr>"

text \<open>
  \<^verbatim>\<open>get_ai_provider_for_environment\<close> (\<^verbatim>\<open>config.py\<close>): the environment, or the process
  variable \<^verbatim>\<open>FARM_ENV\<close> (default \<^verbatim>\<open>development\<close>) when it is \<^verbatim>\<open>None\<close>, is looked up in
  the routing table with default \<^verbatim>\<open>ollama\<close>.
\<close>

definition routing :: "(string \<times> string) list" where
  "routing = [(''development'', ''ollama''), (''staging'', ''openai''), (''production'', ''openai'')]"

definition get_ai_provider_for_environment :: "string option \<Rightarrow> string option \<Rightarrow> string" where
  "get_ai_provider_for_environment env farm_env =
     (let e = (case env of
                 None \<Rightarrow> (case farm_env of None \<Rightarrow> ''development'' | Some v \<Rightarrow> v)
               | Some e \<Rightarrow> e)
      in case map_of routing e of None \<Rightarrow> ''ollama'' | Some p \<Rightarrow> p)"

text \<open>Truth value of an \<^verbatim>\<open>Optional[str]\<close>: \<^verbatim>\<open>None\<close> and the empty string are false.\<close>

definition truthy_str :: "string option \<Rightarrow> bool" where
  "truthy_str s = (case s of None \<Rightarrow> False | Some v \<Rightarrow> v \<noteq> [])"

text \<open>
  One \<^verbatim>\<open>if ...: self.providers[name] = Provider({...})\<close> statement inside the \<^verbatim>\<open>try\<close>.
  Whether a constructor raises depends on the libraries and the machine, so the
  constructors are a parameter: \<open>ctor name\<close> is the provider object or the exception raised.
  An exception leaves the dictionary as it is and is handed on.
\<close>

definition register_provider ::
  "(string \<Rightarrow> exn + 'p) \<Rightarrow> bool \<Rightarrow> string \<Rightarrow> 'p AIRouter \<Rightarrow> exn option \<times> 'p AIRouter" where
  "register_provider ctor cond name r =
     (if cond then
        (case ctor name of
           Inl e \<Rightarrow> (Some e, r)
         | Inr p \<Rightarrow> (None, r\<lparr>providers := (providers r)(name \<mapsto> p)\<rparr>))
      else (None, r))"

text \<open>
  The body of the \<^verbatim>\<open>try\<close>: Ollama, OpenAI (only with an API key), HuggingFace, then the
  default provider from the environment. The first exception ends the body.
\<close>

definition setup_try :: "ai_settings \<Rightarrow> (string \<Rightarrow> exn + 'p) \<Rightarrow> 'p AIRouter \<Rightarrow> exn option \<times> 'p AIRouter" where
  "setup_try cfg ctor r =
     (case register_provider ctor (ollama_enabled cfg) ''ollama'' r of
        (Some e, r1) \<Rightarrow> (Some e, r1)
      | (None, r1) \<Rightarrow>
     (case register_provider ctor
             (openai_enabled cfg \<and> truthy_str (openai_api_key cfg)) ''openai'' r1 of
        (Some e, r2) \<Rightarrow> (Some e, r2)
      | (None, r2) \<Rightarrow>
     (case register_provider ctor (huggingface_enabled cfg) ''huggingface'' r2 of
        (Some e, r3) \<Rightarrow> (Some e, r3)
      | (None, r3) \<Rightarrow>
          (None, r3\<lparr>default_provider :=
                       Some (get_ai_provider_for_environment (Some (environment cfg)) None)\<rparr>))))"

text \<open>
  \<^verbatim>\<open>except Exception\<close> logs and does not re-raise; an exception outside \<^verbatim>\<open>Exception\<close>
  leaves \<^verbatim>\<open>setup_providers\<close>.
\<close>

definition setup_providers :: "ai_settings \<Rightarrow> (string \<Rightarrow> exn + 'p) \<Rightarrow> 'p AIRouter \<Rightarrow> exn + 'p AIRouter" where
  "setup_providers cfg ctor r =
     (case setup_try cfg ctor r of
        (Some (BaseExc m), r') \<Rightarrow> Inl (BaseExc m)
      | (_, r') \<Rightarrow> Inr r')"

text \<open>
  The providers that the settings ask for, in the order of the code, and whether the
  constructor of a provider returns.
\<close>

definition wanted :: "ai_settings \<Rightarrow> string list" where
  "wanted cfg =
     (if ollama_enabled cfg then [''ollama''] else [])
     @ (if openai_enabled cfg \<and> truthy_str (openai_api_key cfg) then [''openai''] else [])
     @ (if huggingface_enabled cfg then [''huggingface''] else [])"

definition built :: "(string \<Rightarrow> exn + 'p) \<Rightarrow> string \<Rightarrow> bool" where
  "built ctor name = (case ctor name of Inl _ \<Rightarrow> False | Inr _ \<Rightarrow> True)"



section \<open>Providers as the session manager sees them\<close>

text \<open>Values of Python that are tested for truth: \<^verbatim>\<open>None\<close> and booleans.\<close>

datatype pyval = PyNone | PyBool bool

fun truthy :: "pyval \<Rightarrow> bool" where
  "truthy PyNone = False"
| "truthy (PyBool b) = b"

text \<open>
  A provider object: its class, the keys of its \<^verbatim>\<open>models\<close> dictionary, and two things
  that depend on the outside world: whether the verification or local loading of a model
  succeeds (used by \<^verbatim>\<open>HuggingFaceProvider.load_model\<close> only) and, for a model, the chunks
  that iterating the chat stream yields together with the message of the
  \<^verbatim>\<open>Exception\<close> that ends it, if any.
\<close>

datatype provider_class = Ollama | OpenAI | HuggingFace

record provider =
  provider_class :: provider_class
  models :: "string list"
  loadable :: "string \<Rightarrow> bool"
  chat_stream :: "string \<Rightarrow> string list \<times> string option"

text \<open>\<^verbatim>\<open>self.models[model] = True\<close>\<close>

definition dict_set :: "string list \<Rightarrow> string \<Rightarrow> string list" where
  "dict_set keys k = (if k \<in> set keys then keys else keys @ [k])"

text \<open>
  \<^verbatim>\<open>load_model\<close> of the three classes. \<^verbatim>\<open>OllamaProvider\<close> and \<^verbatim>\<open>OpenAIProvider\<close> return
  \<^verbatim>\<open>None\<close> at once. \<^verbatim>\<open>HuggingFaceProvider\<close> verifies or loads the model inside a
  \<^verbatim>\<open>try\<close> that catches every \<^verbatim>\<open>Exception\<close>, enters the model in the catalog on
  success, and then returns \<^verbatim>\<open>None\<close> as well.
\<close>

definition load_model :: "provider \<Rightarrow> string \<Rightarrow> pyval \<times> provider" where
  "load_model p model =
     (case provider_class p of
        Ollama \<Rightarrow> (PyNone, p)
      | OpenAI \<Rightarrow> (PyNone, p)
      | HuggingFace \<Rightarrow>
          (PyNone, if loadable p model then p\<lparr>models := dict_set (models p) model\<rparr> else p))"



section \<open>Session manager (\<^verbatim>\<open>ai_handlers.py\<close>, class \<^verbatim>\<open>AIWebSocketManager\<close>)\<close>

text \<open>
  The outbound messages of the modelled handlers, by \<^verbatim>\<open>type\<close>, with the data that is
  not a time stamp: \<^verbatim>\<open>model_loading\<close> and \<^verbatim>\<open>model_loaded\<close> (model, provider),
  \<^verbatim>\<open>stream_start\<close> (model, provider), \<^verbatim>\<open>stream_content\<close> (content, full response),
  \<^verbatim>\<open>stream_complete\<close> (full response, model, provider), \<^verbatim>\<open>stream_cancelled\<close>,
  \<^verbatim>\<open>generation_stopped\<close>, \<^verbatim>\<open>no_active_generation\<close> and \<^verbatim>\<open>error\<close> (error text).
\<close>

datatype message =
    ModelLoading string "string option"
  | ModelLoaded string "string option"
  | StreamStart string "string option"
  | StreamContent string string
  | StreamComplete string string "string option"
  | StreamCancelled
  | GenerationStopped
  | NoActiveGeneration
  | ErrorMsg string

text \<open>A websocket either takes \<^verbatim>\<open>send_text\<close> or raises on it.\<close>

datatype websocket = Open | Broken

record metadata =
  messages_sent :: nat
  current_provider :: "string option"
  current_model :: "string option"

text \<open>
  The \<^verbatim>\<open>asyncio\<close> tasks created for streams, in a store indexed by creation order. A
  task is running, cancelled (by \<^verbatim>\<open>task.cancel()\<close>) or finished; it is awaited by the
  \<^verbatim>\<open>_start_chat_stream\<close> call that created it until that call resumes.
\<close>

datatype task_state = Running | Cancelled | Finished

record stream_task =
  task_connection :: string
  task_state :: task_state
  task_awaited :: bool

text \<open>
  The manager: its three dictionaries, the task store and the messages sent so far, each
  with the connection it went to.
\<close>

record manager =
  active_connections :: "string \<rightharpoonup> websocket"
  connection_metadata :: "string \<rightharpoonup> metadata"
  active_streams :: "string \<rightharpoonup> nat"
  tasks :: "stream_task list"
  outbox :: "(string \<times> message) list"

text \<open>\<^verbatim>\<open>task.cancel()\<close>: no effect on a task that is over.\<close>

definition cancel_task :: "nat \<Rightarrow> stream_task list \<Rightarrow> stream_task list" where
  "cancel_task tid ts =
     (if tid < length ts \<and> task_state (ts ! tid) = Running
      then ts[tid := (ts ! tid)\<lparr>task_state := Cancelled\<rparr>] else ts)"

text \<open>The coroutine of a task returns.\<close>

definition finish_task :: "nat \<Rightarrow> manager \<Rightarrow> manager" where
  "finish_task tid m =
     (if tid < length (tasks m) \<and> task_state (tasks m ! tid) = Running
      then m\<lparr>tasks := (tasks m)[tid := (tasks m ! tid)\<lparr>task_state := Finished\<rparr>]\<rparr> else m)"

definition task_cancelled :: "nat \<Rightarrow> manager \<Rightarrow> bool" where
  "task_cancelled tid m \<longleftrightarrow> tid < length (tasks m) \<and> task_state (tasks m ! tid) = Cancelled"

text \<open>\<^verbatim>\<open>disconnect\<close>\<close>

definition disconnect :: "string \<Rightarrow> manager \<Rightarrow> manager" where
  "disconnect connection_id m =
     (case active_connections m connection_id of
        None \<Rightarrow> m
      | Some _ \<Rightarrow>
          (let m1 = (case active_streams m connection_id of
                       None \<Rightarrow> m
                     | Some tid \<Rightarrow> m\<lparr>tasks := cancel_task tid (tasks m),
                                      active_streams := (active_streams m)(connection_id := None)\<rparr>)
           in m1\<lparr>active_connections := (active_connections m1)(connection_id := None),
                 connection_metadata := (connection_metadata m1)(connection_id := None)\<rparr>))"

text \<open>
  \<^verbatim>\<open>_send_message\<close>: nothing for an unknown connection; an exception of \<^verbatim>\<open>send_text\<close>
  disconnects the connection.
\<close>

definition send_message :: "string \<Rightarrow> message \<Rightarrow> manager \<Rightarrow> manager" where
  "send_message connection_id msg m =
     (case active_connections m connection_id of
        None \<Rightarrow> m
      | Some Open \<Rightarrow> m\<lparr>outbox := outbox m @ [(connection_id, msg)]\<rparr>
      | Some Broken \<Rightarrow> disconnect connection_id m)"

definition send_error :: "string \<Rightarrow> string \<Rightarrow> manager \<Rightarrow> manager" where
  "send_error connection_id error_message m = send_message connection_id (ErrorMsg error_message) m"

text \<open>\<^verbatim>\<open>str(e)\<close>\<close>

fun str_of :: "exn \<Rightarrow> string" where
  "str_of (RateLimitError s) = s"
| "str_of (APIError s _) = s"
| "str_of (OtherException s) = s"
| "str_of (BaseExc s) = s"

text \<open>
  \<^verbatim>\<open>AIRouter.get_provider\<close>: \<^verbatim>\<open>provider_name or self.default_provider\<close>, and a
  \<^verbatim>\<open>ValueError\<close> when that name is not a key of \<^verbatim>\<open>self.providers\<close> (the text of the
  error is shortened).
\<close>

definition get_provider :: "provider AIRouter \<Rightarrow> string option \<Rightarrow> exn + provider" where
  "get_provider r provider_name =
     (case (if truthy_str provider_name then provider_name else default_provider r) of
        None \<Rightarrow> Inl (OtherException ''AI provider None not configured'')
      | Some name \<Rightarrow>
          (case providers r name of
             None \<Rightarrow> Inl (OtherException (''AI provider '' @ name @ '' not configured''))
           | Some p \<Rightarrow> Inr p))"

text \<open>
  The data of a \<^verbatim>\<open>chat_request\<close>: the \<^verbatim>\<open>messages\<close> entry (\<open>None\<close> when the key is
  missing), \<^verbatim>\<open>model\<close> and \<^verbatim>\<open>provider\<close>. \<^verbatim>\<open>temperature\<close> and \<^verbatim>\<open>max_tokens\<close> are only
  handed to the provider's stream.
\<close>

record chat_request =
  req_messages :: "(string \<times> string) list list option"
  req_model :: "string option"
  req_provider :: "string option"

text \<open>
  \<^verbatim>\<open>ChatMessage(**msg)\<close>: validation fails without \<^verbatim>\<open>role\<close> or \<^verbatim>\<open>content\<close>.
\<close>

definition chat_message :: "(string \<times> string) list \<Rightarrow> exn + (string \<times> string)" where
  "chat_message msg =
     (case (map_of msg ''role'', map_of msg ''content'') of
        (Some r, Some c) \<Rightarrow> Inr (r, c)
      | _ \<Rightarrow> Inl (OtherException ''ValidationError''))"

fun chat_messages :: "(string \<times> string) list list \<Rightarrow> exn + (string \<times> string) list" where
  "chat_messages [] = Inr []"
| "chat_messages (msg # rest) =
     (case chat_message msg of
        Inl e \<Rightarrow> Inl e
      | Inr cm \<Rightarrow> (case chat_messages rest of Inl e \<Rightarrow> Inl e | Inr cms \<Rightarrow> Inr (cm # cms)))"

text \<open>
  The loop of \<^verbatim>\<open>_stream_chat_response\<close> over the chunks: empty chunks are skipped, the
  others are appended to \<^verbatim>\<open>full_response\<close> and sent. A task that was cancelled stops at
  its next suspension.
\<close>

fun send_chunks :: "nat \<Rightarrow> string \<Rightarrow> string list \<Rightarrow> string \<Rightarrow> manager \<Rightarrow> string \<times> manager" where
  "send_chunks tid connection_id [] full_response m = (full_response, m)"
| "send_chunks tid connection_id (chunk # rest) full_response m =
     (if task_cancelled tid m then (full_response, m)
      else if chunk = [] then send_chunks tid connection_id rest full_response m
      else send_chunks tid connection_id rest (full_response @ chunk)
             (send_message connection_id (StreamContent chunk (full_response @ chunk)) m))"

text \<open>
  \<^verbatim>\<open>_stream_chat_response\<close>, the coroutine of a stream task: \<^verbatim>\<open>stream_start\<close>, the
  chunks, \<^verbatim>\<open>stream_complete\<close> and the message counter; any \<^verbatim>\<open>Exception\<close> (the end of
  the provider's stream, or the \<^verbatim>\<open>KeyError\<close> of a connection whose metadata is gone)
  becomes an \<^verbatim>\<open>error\<close> message.
\<close>

definition stream_chat_response :: "nat \<Rightarrow> string \<Rightarrow> provider \<Rightarrow> string \<Rightarrow> manager \<Rightarrow> manager" where
  "stream_chat_response tid connection_id p model m =
     (case connection_metadata m connection_id of
        None \<Rightarrow> send_error connection_id ''Streaming failed: KeyError'' m
      | Some md \<Rightarrow>
          (let m1 = send_message connection_id (StreamStart model (current_provider md)) m;
               (full_response, m2) = send_chunks tid connection_id (fst (chat_stream p model)) [] m1
           in if task_cancelled tid m2 then m2
              else (case snd (chat_stream p model) of
                      Some e \<Rightarrow> send_error connection_id (''Streaming failed: '' @ e) m2
                    | None \<Rightarrow>
                        (case connection_metadata m2 connection_id of
                           None \<Rightarrow> send_error connection_id ''Streaming failed: KeyError'' m2
                         | Some md2 \<Rightarrow>
                             (let m3 = send_message connection_id
                                         (StreamComplete full_response model (current_provider md2)) m2
                              in if task_cancelled tid m3 then m3
                                 else (case connection_metadata m3 connection_id of
                                         None \<Rightarrow> send_error connection_id ''Streaming failed: KeyError'' m3
                                       | Some md3 \<Rightarrow>
                                           m3\<lparr>connection_metadata := (connection_metadata m3)
                                                 (connection_id \<mapsto> md3\<lparr>messages_sent := messages_sent md3 + 1\<rparr>)\<rparr>))))))"

text \<open>
  \<^verbatim>\<open>_start_chat_stream\<close> up to its \<^verbatim>\<open>await task\<close> (no suspension in between): cancel the
  task registered for the connection, if any, create the new task and register it.
\<close>

definition start_stream_begin :: "string \<Rightarrow> manager \<Rightarrow> nat \<times> manager" where
  "start_stream_begin connection_id m =
     (let ts = (case active_streams m connection_id of
                  None \<Rightarrow> tasks m
                | Some old \<Rightarrow> cancel_task old (tasks m));
          task = length ts
      in (task, m\<lparr>tasks := ts @ [\<lparr>task_connection = connection_id, task_state = Running,
                                     task_awaited = True\<rparr>],
                   active_streams := (active_streams m)(connection_id \<mapsto> task)\<rparr>))"

text \<open>
  \<^verbatim>\<open>_start_chat_stream\<close> from the point where \<^verbatim>\<open>await task\<close> is over: for a cancelled
  task the \<^verbatim>\<open>CancelledError\<close> handler sends \<^verbatim>\<open>stream_cancelled\<close>; the \<^verbatim>\<open>finally\<close>
  block deletes the entry of the connection in \<^verbatim>\<open>active_streams\<close>, whichever task it
  holds.
\<close>

definition start_stream_end :: "nat \<Rightarrow> string \<Rightarrow> manager \<Rightarrow> manager" where
  "start_stream_end task connection_id m =
     (let m0 = m\<lparr>tasks := (if task < length (tasks m)
                             then (tasks m)[task := (tasks m ! task)\<lparr>task_awaited := False\<rparr>]
                             else tasks m)\<rparr>;
          m1 = (if task_cancelled task m0 then send_message connection_id StreamCancelled m0 else m0)
      in m1\<lparr>active_streams := (active_streams m1)(connection_id := None)\<rparr>)"

text \<open>\<^verbatim>\<open>_start_chat_stream\<close> when nothing else runs in between.\<close>

definition start_chat_stream :: "string \<Rightarrow> provider \<Rightarrow> string \<Rightarrow> manager \<Rightarrow> manager" where
  "start_chat_stream connection_id p model m =
     (let (task, m1) = start_stream_begin connection_id m;
          m2 = stream_chat_response task connection_id p model m1;
          m3 = finish_task task m2
      in start_stream_end task connection_id m3)"

text \<open>
  \<^verbatim>\<open>_handle_chat_request\<close>. The provider object is shared with the router, so what
  \<^verbatim>\<open>load_model\<close> changes in it is seen there.
\<close>

definition handle_chat_request ::
  "string \<Rightarrow> chat_request \<Rightarrow> provider AIRouter \<times> manager \<Rightarrow> provider AIRouter \<times> manager" where
  "handle_chat_request connection_id data s =
     (let r = fst s; m = snd s;
          failed = (\<lambda>e. (r, send_error connection_id (''Chat request failed: '' @ str_of e) m))
      in case req_messages data of
           None \<Rightarrow> (r, send_error connection_id ''Missing 'messages' in chat request'' m)
         | Some msgs \<Rightarrow>
        (case chat_messages msgs of
           Inl e \<Rightarrow> failed e
         | Inr chat_msgs \<Rightarrow>
        (let model = (case req_model data of None \<Rightarrow> ''llama3.1'' | Some x \<Rightarrow> x) in
         case get_provider r (req_provider data) of
           Inl e \<Rightarrow> failed e
         | Inr p \<Rightarrow>
        (let provider_name = (if truthy_str (req_provider data) then req_provider data
                              else default_provider r) in
         case connection_metadata m connection_id of
           None \<Rightarrow> failed (OtherException ''KeyError'')
         | Some md \<Rightarrow>
        (let m1 = m\<lparr>connection_metadata := (connection_metadata m)
                      (connection_id \<mapsto> md\<lparr>current_provider := provider_name,
                                            current_model := Some model\<rparr>)\<rparr>
         in if model \<notin> set (models p) then
              (let m2 = send_message connection_id (ModelLoading model provider_name) m1;
                   (success, p') = load_model p model;
                   r' = (case provider_name of
                           None \<Rightarrow> r
                         | Some name \<Rightarrow> r\<lparr>providers := (providers r)(name \<mapsto> p')\<rparr>)
               in if \<not> truthy success
                  then (r', send_error connection_id (''Failed to load model: '' @ model) m2)
                  else (r', start_chat_stream connection_id p' model m2))
            else (r, start_chat_stream connection_id p model m1))))))"

text \<open>\<^verbatim>\<open>_handle_stop_generation\<close>\<close>

definition handle_stop_generation :: "string \<Rightarrow> manager \<Rightarrow> manager" where
  "handle_stop_generation connection_id m =
     (case active_streams m connection_id of
        Some task \<Rightarrow> send_message connection_id GenerationStopped (m\<lparr>tasks := cancel_task task (tasks m)\<rparr>)
      | None \<Rightarrow> send_message connection_id NoActiveGeneration m)"

text \<open>
  The steps of the manager that the event loop can run one after the other when several
  coroutines work on the same connection id (the route \<^verbatim>\<open>/ws/ai/{connection_id}\<close> lets
  a second client connect under an id already in use): a handler gets to
  \<^verbatim>\<open>_start_chat_stream\<close>; a stream task ends by itself; the handler that awaits a task
  which is over resumes; a \<^verbatim>\<open>stop_generation\<close> message is handled; a connection is
  closed.
\<close>

datatype action =
    StartChatStream string
  | TaskEnds nat
  | HandlerResumes nat
  | StopGeneration string
  | Disconnect string

fun step :: "action \<Rightarrow> manager \<Rightarrow> manager" where
  "step (StartChatStream c) m = snd (start_stream_begin c m)"
| "step (TaskEnds task) m = finish_task task m"
| "step (HandlerResumes task) m =
     (if task < length (tasks m) \<and> task_awaited (tasks m ! task)
           \<and> task_state (tasks m ! task) \<noteq> Running
      then start_stream_end task (task_connection (tasks m ! task)) m else m)"
| "step (StopGeneration c) m = handle_stop_generation c m"
| "step (Disconnect c) m = disconnect c m"

fun run :: "action list \<Rightarrow> manager \<Rightarrow> manager" where
  "run [] m = m"
| "run (a # as) m = run as (step a m)"

text \<open>The stream tasks of a connection that are running.\<close>

definition active_stream_tasks :: "string \<Rightarrow> manager \<Rightarrow> nat list" where
  "active_stream_tasks c m =
     filter (\<lambda>i. task_connection (tasks m ! i) = c \<and> task_state (tasks m ! i) = Running)
       [0..<length (tasks m)]"

text \<open>The messages sent between two states of the manager, and the \<^verbatim>\<open>stream_start\<close> ones.\<close>

definition sent_since :: "manager \<Rightarrow> manager \<Rightarrow> (string \<times> message) list" where
  "sent_since m m' = drop (length (outbox m)) (outbox m')"

definition is_stream_start :: "message \<Rightarrow> bool" where
  "is_stream_start msg = (case msg of StreamStart _ _ \<Rightarrow> True | _ \<Rightarrow> False)"

section \<open>Concrete inputs\<close>

text \<open>
  A provider as \<^verbatim>\<open>OpenAIProvider.__init__\<close> builds it from a configuration without
  \<^verbatim>\<open>rateLimiting\<close> and \<^verbatim>\<open>retryDelay\<close> entries (60 requests and 40000 tokens per minute,
  delay 1, empty buckets), with the given \<^verbatim>\<open>maxRetries\<close>.
\<close>

definition fresh_provider :: "int \<Rightarrow> OpenAIProvider" where
  "fresh_provider n = \<lparr>rate_limiter = new_RateLimiter 60 40000, max_retries = n, retry_delay = 1\<rparr>"

definition hello_call :: call_args where
  "hello_call = \<lparr>args = [], messages = Some [[(''role'', ''user''), (''content'', ''hello'')]],
       max_tokens = Some 100\<rparr>"

text \<open>A wrapped call that is rate limited twice and then succeeds.\<close>

definition two_rate_limits_then_ok :: "nat \<Rightarrow> exn + string" where
  "two_rate_limits_then_ok k =
     (if k = 0 then Inl (RateLimitError ''first 429'')
      else if k = 1 then Inl (RateLimitError ''second 429'')
      else Inr ''ok'')"

text \<open>A wrapped call that fails every time with the API error of an unknown model.\<close>

definition always_model_not_found :: "nat \<Rightarrow> exn + string" where
  "always_model_not_found k = Inl (APIError ''model_not_found'' (Some 404))"

text \<open>
  Settings with all three providers enabled, and constructors of which the one of OpenAI
  raises.
\<close>

definition all_enabled :: ai_settings where
  "all_enabled = \<lparr>ollama_enabled = True, openai_enabled = True, openai_api_key = Some ''sk-test'',
      huggingface_enabled = True, environment = ''production''\<rparr>"

definition openai_fails :: "string \<Rightarrow> exn + nat" where
  "openai_fails name = (if name = ''openai'' then Inl (OtherException ''client setup failed'')
                        else if name = ''ollama'' then Inr 1 else Inr 3)"

text \<open>
  A manager with one open connection, a router with the Ollama provider of the
  development settings, and a chat request for a model. \<^verbatim>\<open>OllamaProvider.chat_stream\<close>
  is a coroutine function that returns its generator, so the \<^verbatim>\<open>async for\<close> of
  \<^verbatim>\<open>_stream_chat_response\<close> over its unawaited result raises \<^verbatim>\<open>TypeError\<close> before any
  chunk.
\<close>

definition open_session :: "string \<Rightarrow> manager" where
  "open_session c = \<lparr>active_connections = [c \<mapsto> Open],
      connection_metadata = [c \<mapsto> \<lparr>messages_sent = 0, current_provider = None, current_model = None\<rparr>],
      active_streams = Map.empty, tasks = [], outbox = []\<rparr>"

definition ollama_llama :: provider where
  "ollama_llama = \<lparr>provider_class = Ollama, models = [''llama3.1''], loadable = (\<lambda>_. False),
     chat_stream = (\<lambda>_. ([], Some ''TypeError: async for requires an object with __aiter__ method, got coroutine''))\<rparr>"

definition dev_router :: "provider AIRouter" where
  "dev_router = \<lparr>providers = [''ollama'' \<mapsto> ollama_llama], default_provider = Some ''ollama''\<rparr>"

definition hello_request :: "string \<Rightarrow> chat_request" where
  "hello_request model = \<lparr>req_messages = Some [[(''role'', ''user''), (''content'', ''hello'')]],
      req_model = Some model, req_provider = None\<rparr>"

section \<open>Admission comes through when the clock advances\<close>

text \<open>
  A pass keeps the limits and the other bucket, and a saturated pass only prunes. With a
  reading that lies more than 60 seconds after every recorded entry the pass at that
  reading admits, so a call with such a reading among its clock readings returns.
\<close>

lemma request_attempt_keeps:
  "request_attempt now rl = (a, rl') \<Longrightarrow>
     requests_per_minute rl' = requests_per_minute rl \<and> tokens_per_minute rl' = tokens_per_minute rl
     \<and> token_bucket rl' = token_bucket rl"
  by (auto simp: request_attempt_def Let_def split: if_splits list.splits)

lemma set_prune_requests: "set (prune_requests now b) \<subseteq> set b"
  by (auto simp: prune_requests_def dest: set_dropWhileD)

lemma set_prune_tokens: "set (prune_tokens now b) \<subseteq> set b"
  by (auto simp: prune_tokens_def dest: set_dropWhileD)

lemma request_attempt_saturated_bucket:
  assumes "request_attempt now rl = (Saturated w, rl')"
  shows "set (request_bucket rl') \<subseteq> set (request_bucket rl)"
proof -
  from assms have "request_bucket rl' = prune_requests now (request_bucket rl)"
    by (auto simp: request_attempt_def Let_def split: if_splits list.splits)
  then show ?thesis by (simp add: set_prune_requests)
qed

lemma request_attempt_late:
  assumes "1 \<le> requests_per_minute rl" "\<forall>ts\<in>set (request_bucket rl). t1 - ts > 60"
  shows "fst (request_attempt t1 rl) = Admitted"
proof -
  have "prune_requests t1 (request_bucket rl) = []"
    using assms(2) by (simp add: prune_requests_def)
  then show ?thesis using assms(1) by (simp add: request_attempt_def)
qed

lemma request_attempt_not_failed:
  "1 \<le> requests_per_minute rl \<Longrightarrow> request_attempt now rl \<noteq> (Failed e, rl')"
  by (auto simp: request_attempt_def Let_def split: if_splits list.splits)

lemma acquire_request_total:
  assumes "1 \<le> requests_per_minute rl" "\<forall>ts\<in>set (request_bucket rl). t1 - ts > 60"
  shows "\<exists>pre rl'. acquire_request (c1 @ t1 # c2) rl = (Returned True, pre @ c2, rl')
            \<and> token_bucket rl' = token_bucket rl"
  using assms
proof (induction c1 arbitrary: rl)
  case Nil
  obtain a rl' where eq: "request_attempt t1 rl = (a, rl')" by (cases "request_attempt t1 rl")
  with request_attempt_late[OF Nil] have "a = Admitted" by simp
  with eq request_attempt_keeps[OF eq] show ?case by simp
next
  case (Cons now c1)
  obtain a rl' where eq: "request_attempt now rl = (a, rl')" by (cases "request_attempt now rl")
  note keep = request_attempt_keeps[OF eq]
  show ?case
  proof (cases a)
    case Admitted
    with eq keep have "acquire_request ((now # c1) @ t1 # c2) rl = (Returned True, (c1 @ [t1]) @ c2, rl')
       \<and> token_bucket rl' = token_bucket rl" by simp
    then show ?thesis by blast
  next
    case (Saturated w)
    with eq have sub: "set (request_bucket rl') \<subseteq> set (request_bucket rl)"
      by (simp add: request_attempt_saturated_bucket)
    have "\<exists>pre rl''. acquire_request (c1 @ t1 # c2) rl' = (Returned True, pre @ c2, rl'')
            \<and> token_bucket rl'' = token_bucket rl'"
      using Cons.IH[of rl'] Cons.prems keep sub by auto
    with eq Saturated keep show ?thesis by simp
  next
    case (Failed e)
    with eq request_attempt_not_failed[OF Cons.prems(1)] show ?thesis by blast
  qed
qed

lemma token_attempt_cases:
  assumes "token_attempt now est rl = (a, rl')"
  shows "a = Admitted \<or> (\<exists>w. a = Saturated w \<and> set (token_bucket rl') \<subseteq> set (token_bucket rl))"
proof -
  from assms have "a = Admitted \<or>
      (\<exists>w. a = Saturated w \<and> token_bucket rl' = prune_tokens now (token_bucket rl))"
    by (auto simp: token_attempt_def Let_def split: if_splits list.splits)
  then show ?thesis using set_prune_tokens[of now "token_bucket rl"] by auto
qed

lemma token_attempt_late:
  assumes "\<forall>e\<in>set (token_bucket rl). t2 - fst e > 60"
  shows "fst (token_attempt t2 est rl) = Admitted"
proof -
  have "prune_tokens t2 (token_bucket rl) = []"
    using assms by (auto simp: prune_tokens_def)
  then show ?thesis by (simp add: token_attempt_def)
qed

lemma acquire_tokens_total:
  assumes "\<forall>e\<in>set (token_bucket rl). t2 - fst e > 60"
  shows "\<exists>pre rl'. acquire_tokens est (c1 @ t2 # c2) rl = (Returned True, pre @ c2, rl')"
  using assms
proof (induction c1 arbitrary: rl)
  case Nil
  obtain a rl' where eq: "token_attempt t2 est rl = (a, rl')" by (cases "token_attempt t2 est rl")
  with token_attempt_late[OF Nil, of est] have "a = Admitted" by simp
  with eq show ?case by simp
next
  case (Cons now c1)
  obtain a rl' where eq: "token_attempt now est rl = (a, rl')" by (cases "token_attempt now est rl")
  from token_attempt_cases[OF eq] show ?case
  proof
    assume "a = Admitted"
    with eq have "acquire_tokens est ((now # c1) @ t2 # c2) rl = (Returned True, (c1 @ [t2]) @ c2, rl')"
      by simp
    then show ?thesis by blast
  next
    assume "\<exists>w. a = Saturated w \<and> set (token_bucket rl') \<subseteq> set (token_bucket rl)"
    then obtain w where a: "a = Saturated w" and sub: "set (token_bucket rl') \<subseteq> set (token_bucket rl)"
      by blast
    have "\<exists>pre rl''. acquire_tokens est (c1 @ t2 # c2) rl' = (Returned True, pre @ c2, rl'')"
      using Cons.IH[of rl'] Cons.prems sub by auto
    with eq a show ?thesis by simp
  qed
qed

lemma admission_granted:
  assumes "clock_clears (rate_limiter p) clock"
  shows "\<exists>rl2. make_request_with_retry p c f clock =
     (fst (retry_loop (max_retries p) (retry_delay p) f [0..<nat (max_retries p)] None),
      [AcquireRequest, AcquireTokens (estimated_tokens_of c)]
         @ snd (retry_loop (max_retries p) (retry_delay p) f [0..<nat (max_retries p)] None),
      rl2)"
proof -
  from assms obtain c1 t1 c2 t2 where
    r: "1 \<le> requests_per_minute (rate_limiter p)" and
    clk: "clock = c1 @ t1 # c2 @ [t2]" and
    l1: "\<forall>ts\<in>set (request_bucket (rate_limiter p)). t1 - ts > 60" and
    l2: "\<forall>e\<in>set (token_bucket (rate_limiter p)). t2 - fst e > 60"
    unfolding clock_clears_def by blast
  from acquire_request_total[OF r l1, of c1 "c2 @ [t2]"] obtain pre rl1 where
    a1: "acquire_request clock (rate_limiter p) = (Returned True, pre @ c2 @ [t2], rl1)"
    and tb: "token_bucket rl1 = token_bucket (rate_limiter p)"
    unfolding clk by blast
  from l2 tb have "\<forall>e\<in>set (token_bucket rl1). t2 - fst e > 60" by simp
  from acquire_tokens_total[OF this, of "estimated_tokens_of c" "pre @ c2" "[]"] obtain pre2 rl2 where
    a2: "acquire_tokens (estimated_tokens_of c) (pre @ c2 @ [t2]) rl1 = (Returned True, pre2, rl2)"
    by auto
  show ?thesis
    by (rule exI[of _ rl2]) (simp add: make_request_with_retry_def a1 a2 split: prod.split)
qed


section \<open>The retry loop\<close>

lemma retry_rate_limited_then_ok:
  assumes "\<forall>i. k \<le> i \<and> i < n \<longrightarrow> (\<exists>m. f i = Inl (RateLimitError m))" "f n = Inr v" "k \<le> n"
  shows "fst (retry_loop mr d f [k..<Suc n] lerr) = Returned v
       \<and> invocations (snd (retry_loop mr d f [k..<Suc n] lerr)) = Suc n - k"
  using assms
proof (induction "n - k" arbitrary: k lerr)
  case 0
  then have "k = n" by simp
  with 0 show ?case by (simp add: invocations_def)
next
  case (Suc j)
  then have lt: "k < n" by simp
  then obtain m where fk: "f k = Inl (RateLimitError m)" using Suc.prems(1) by auto
  have up: "[k..<Suc n] = k # [Suc k..<Suc n]" using lt by (simp add: upt_conv_Cons)
  have IH: "fst (retry_loop mr d f [Suc k..<Suc n] (Some (RateLimitError m))) = Returned v
       \<and> invocations (snd (retry_loop mr d f [Suc k..<Suc n] (Some (RateLimitError m)))) = Suc n - Suc k"
    using Suc.hyps(1)[of "Suc k"] Suc.hyps(2) Suc.prems lt by auto
  show ?case
    using IH lt unfolding up
    by (simp add: fk invocations_def backoff_def case_prod_beta)
qed

lemma retry_rate_limited_exhausted:
  assumes "\<forall>i. k \<le> i \<and> i < n \<longrightarrow> (\<exists>m. f i = Inl (RateLimitError m))" "k < n" "f (n - 1) = Inl e"
  shows "fst (retry_loop mr d f [k..<n] lerr) = Raised e
       \<and> invocations (snd (retry_loop mr d f [k..<n] lerr)) = n - k"
  using assms
proof (induction "n - k" arbitrary: k lerr)
  case 0
  then show ?case by simp
next
  case (Suc j)
  obtain m where fk: "f k = Inl (RateLimitError m)" using Suc.prems by auto
  have up: "[k..<n] = k # [Suc k..<n]" using Suc.prems(2) by (simp add: upt_conv_Cons)
  show ?case
  proof (cases "Suc k = n")
    case True
    then have "e = RateLimitError m" using fk Suc.prems(3) by auto
    with True fk show ?thesis unfolding up by (simp add: invocations_def backoff_def)
  next
    case False
    then have lt: "Suc k < n" using Suc.prems(2) by simp
    have IH: "fst (retry_loop mr d f [Suc k..<n] (Some (RateLimitError m))) = Raised e
       \<and> invocations (snd (retry_loop mr d f [Suc k..<n] (Some (RateLimitError m)))) = n - Suc k"
      using Suc.hyps(1)[of "Suc k"] Suc.hyps(2) Suc.prems lt by auto
    show ?thesis
      using IH lt unfolding up
      by (simp add: fk invocations_def backoff_def case_prod_beta)
  qed
qed


lemma retry_loop_no_acquire:
  "filter is_acquire_request (snd (retry_loop mr d f as lerr)) = []
   \<and> filter is_acquire_tokens (snd (retry_loop mr d f as lerr)) = []"
proof (induction as arbitrary: lerr)
  case Nil
  then show ?case by (simp split: option.split)
next
  case (Cons a as)
  show ?case
  proof (cases "f a")
    case (Inr v)
    then show ?thesis by simp
  next
    case (Inl e)
    then show ?thesis
      using Cons.IH by (cases e) (simp_all add: backoff_def case_prod_beta)
  qed
qed

text \<open>
  Without any attempt (\<open>max_retries \<le> 0\<close>) the loop body never runs and the wrapper raises
  the \<^verbatim>\<open>RuntimeError\<close> of its last line.
\<close>

lemma no_attempts_runtime_error:
  assumes "max_retries p \<le> 0"
  shows "retry_loop (max_retries p) (retry_delay p) request_func [0..<nat (max_retries p)] None
           = (Raised (OtherException ''RuntimeError: OpenAI request failed for unknown reason''), [])"
  using assms by simp

lemma fresh_clock_clears: "clock_clears (rate_limiter (fresh_provider n)) [0, 0]"
  unfolding clock_clears_def
  apply (rule conjI)
   apply (simp add: fresh_provider_def new_RateLimiter_def)
  apply (rule exI[of _ "[]"], rule exI[of _ 0], rule exI[of _ "[]"], rule exI[of _ 0])
  apply (simp add: fresh_provider_def new_RateLimiter_def)
  done

text \<open>
  Claim C3. With \<open>max_retries = N + 1\<close>, a wrapped call that raises \<open>RateLimitError\<close> on its
  first \<open>N\<close> invocations and succeeds on the next makes the wrapper return that success
  after exactly \<open>N + 1\<close> invocations; with \<open>max_retries = N\<close> (\<open>N > 0\<close>) and \<open>N\<close>
  rate-limited invocations the wrapper raises the error of the last invocation after
  exactly \<open>N\<close> invocations. The wrapper gets to the loop, and so returns, in every
  environment where the admission calls come through (\<open>clock_clears\<close>).
\<close>

theorem retry_rate_limited:
  assumes "clock_clears (rate_limiter p) clock"
      and "\<forall>i<N. \<exists>m. request_func i = Inl (RateLimitError m)"
  shows "(request_func N = Inr v \<and> max_retries p = int N + 1 \<longrightarrow>
            fst (make_request_with_retry p c request_func clock) = Returned v
          \<and> invocations (fst (snd (make_request_with_retry p c request_func clock))) = N + 1)
       \<and> (0 < N \<and> max_retries p = int N \<longrightarrow>
            Inl (RateLimitError m) = request_func (N - 1) \<longrightarrow>
            fst (make_request_with_retry p c request_func clock) = Raised (RateLimitError m)
          \<and> invocations (fst (snd (make_request_with_retry p c request_func clock))) = N)"
proof -
  let ?W = "make_request_with_retry p c request_func clock"
  let ?L = "retry_loop (max_retries p) (retry_delay p) request_func [0..<nat (max_retries p)] None"
  from admission_granted[OF assms(1), of c request_func] obtain rl2 where
    W: "?W = (fst ?L, [AcquireRequest, AcquireTokens (estimated_tokens_of c)] @ snd ?L, rl2)"
    by blast
  have inv: "invocations (fst (snd ?W)) = invocations (snd ?L)"
    by (simp add: W invocations_def)
  have rl: "\<forall>i. 0 \<le> i \<and> i < N \<longrightarrow> (\<exists>m. request_func i = Inl (RateLimitError m))"
    using assms(2) by simp
  have part1: "fst ?W = Returned v \<and> invocations (fst (snd ?W)) = N + 1"
    if "request_func N = Inr v" "max_retries p = int N + 1"
  proof -
    have "nat (max_retries p) = Suc N" using that(2) by simp
    with retry_rate_limited_then_ok[OF rl that(1), of "max_retries p" "retry_delay p" None]
    show ?thesis using inv by (simp add: W)
  qed
  have part2: "fst ?W = Raised (RateLimitError m) \<and> invocations (fst (snd ?W)) = N"
    if "0 < N" "max_retries p = int N" "Inl (RateLimitError m) = request_func (N - 1)"
  proof -
    have "nat (max_retries p) = N" using that(2) by simp
    with retry_rate_limited_exhausted[OF rl that(1) that(3)[symmetric], of "max_retries p" "retry_delay p" None]
    show ?thesis using inv by (simp add: W)
  qed
  show ?thesis using part1 part2 by blast
qed

theorem retry_rate_limited_witness:
  "fst (make_request_with_retry (fresh_provider 3) hello_call two_rate_limits_then_ok [0, 0]) = Returned ''ok''
   \<and> invocations (fst (snd (make_request_with_retry (fresh_provider 3) hello_call two_rate_limits_then_ok [0, 0]))) = 3
   \<and> fst (make_request_with_retry (fresh_provider 2) hello_call two_rate_limits_then_ok [0, 0])
       = Raised (RateLimitError ''second 429'')
   \<and> invocations (fst (snd (make_request_with_retry (fresh_provider 2) hello_call two_rate_limits_then_ok [0, 0]))) = 2"
proof -
  have h: "\<forall>i<2. \<exists>m. two_rate_limits_then_ok i = Inl (RateLimitError m)"
    by (simp add: two_rate_limits_then_ok_def)
  have ok: "two_rate_limits_then_ok 2 = Inr ''ok''" by (simp add: two_rate_limits_then_ok_def)
  have lst: "Inl (RateLimitError ''second 429'') = two_rate_limits_then_ok (2 - 1)"
    by (simp add: two_rate_limits_then_ok_def)
  have m3: "max_retries (fresh_provider 3) = int 2 + 1" by (simp add: fresh_provider_def)
  have m2: "max_retries (fresh_provider 2) = int 2" by (simp add: fresh_provider_def)
  show ?thesis
    using retry_rate_limited[OF fresh_clock_clears[of 3] h, where v="''ok''" and c=hello_call and m="''second 429''"]
          retry_rate_limited[OF fresh_clock_clears[of 2] h, where v="''ok''" and c=hello_call and m="''second 429''"]
          ok lst m3 m2
    by simp
qed

text \<open>
  Claim C4, at a failing input. With \<open>max_retries = 3\<close> a wrapped call that raises an
  \<open>APIError\<close> with status 404 each time is invoked three times, not once: the handler of
  \<open>APIError\<close> skips only the sleep for a status below 500 and then falls into the next
  iteration of the loop.
\<close>

theorem api_error_404_retried:
  "fst (make_request_with_retry (fresh_provider 3) hello_call always_model_not_found [0, 0])
     = Raised (APIError ''model_not_found'' (Some 404))
   \<and> invocations (fst (snd (make_request_with_retry (fresh_provider 3) hello_call
                               always_model_not_found [0, 0]))) = 3"
  by (simp add: make_request_with_retry_def fresh_provider_def hello_call_def new_RateLimiter_def
      request_attempt_def token_attempt_def prune_requests_def prune_tokens_def
      always_model_not_found_def
      backoff_def upt_rec estimated_tokens_of_def Let_def invocations_def)

text \<open>
  In general: as long as the wrapped call raises \<open>APIError\<close>, with any status or none,
  every attempt of the loop invokes it.
\<close>

lemma api_errors_all_retried:
  assumes "\<forall>i. k \<le> i \<and> i < n \<longrightarrow> (\<exists>m s. f i = Inl (APIError m s))"
  shows "invocations (snd (retry_loop mr d f [k..<n] lerr)) = n - k"
  using assms
proof (induction "n - k" arbitrary: k lerr)
  case 0
  then show ?case by (simp add: invocations_def split: option.split)
next
  case (Suc j)
  then have lt: "k < n" by simp
  then obtain m s where fk: "f k = Inl (APIError m s)" using Suc.prems by blast
  have up: "[k..<n] = k # [Suc k..<n]" using lt by (simp add: upt_conv_Cons)
  have IH: "invocations (snd (retry_loop mr d f [Suc k..<n] (Some (APIError m s)))) = n - Suc k"
    using Suc.hyps(1)[of "Suc k"] Suc.hyps(2) Suc.prems by auto
  show ?case
    using IH lt unfolding up
    by (simp add: fk invocations_def backoff_def case_prod_beta)
qed

text \<open>
  The sibling handler does end the loop: any other \<open>Exception\<close> is raised after the one
  invocation that produced it, whatever \<open>max_retries\<close> is.
\<close>

lemma other_exception_not_retried:
  assumes "request_func k = Inl (OtherException m)"
  shows "retry_loop mr d request_func (k # rest) lerr = (Raised (OtherException m), [Invoke k])"
  using assms by simp

text \<open>
  Claim C5, counterexample. In a run with three invocations of the wrapped call there is
  one request-slot acquisition and one token acquisition, not three.
\<close>

theorem one_admission_three_invocations:
  "invocations (fst (snd (make_request_with_retry (fresh_provider 3) hello_call
                            two_rate_limits_then_ok [0, 0]))) = 3
   \<and> admissions (fst (snd (make_request_with_retry (fresh_provider 3) hello_call
                            two_rate_limits_then_ok [0, 0])))
       \<noteq> invocations (fst (snd (make_request_with_retry (fresh_provider 3) hello_call
                            two_rate_limits_then_ok [0, 0])))
   \<and> token_admissions (fst (snd (make_request_with_retry (fresh_provider 3) hello_call
                            two_rate_limits_then_ok [0, 0])))
       \<noteq> invocations (fst (snd (make_request_with_retry (fresh_provider 3) hello_call
                            two_rate_limits_then_ok [0, 0])))"
  by (simp add: make_request_with_retry_def fresh_provider_def hello_call_def new_RateLimiter_def
      request_attempt_def token_attempt_def prune_requests_def prune_tokens_def
      two_rate_limits_then_ok_def
      backoff_def upt_rec estimated_tokens_of_def Let_def invocations_def admissions_def
      token_admissions_def)

text \<open>
  Claim C5, as amended. Every run of the wrapper performs exactly one request-slot
  acquisition and at most one token acquisition, both before the first invocation of the
  wrapped call; the events of the retry loop that follow contain invocations and sleeps
  only, however many invocations there are.
\<close>

theorem admission_once_per_wrapper_call:
  "\<exists>evs. (fst (snd (make_request_with_retry p c f clock)) = [AcquireRequest] \<and> evs = []
        \<or> fst (snd (make_request_with_retry p c f clock)) =
            [AcquireRequest, AcquireTokens (estimated_tokens_of c)] @ evs)
      \<and> admissions evs = 0 \<and> token_admissions evs = 0
      \<and> invocations (fst (snd (make_request_with_retry p c f clock))) = invocations evs
      \<and> admissions (fst (snd (make_request_with_retry p c f clock))) = 1
      \<and> token_admissions (fst (snd (make_request_with_retry p c f clock))) \<le> 1"
proof -
  let ?L = "retry_loop (max_retries p) (retry_delay p) f [0..<nat (max_retries p)] None"
  have na: "admissions (snd ?L) = 0" "token_admissions (snd ?L) = 0"
    using retry_loop_no_acquire[of "max_retries p" "retry_delay p" f "[0..<nat (max_retries p)]" None]
    by (simp_all add: admissions_def token_admissions_def)
  obtain r1 clock1 rl1 where a1: "acquire_request clock (rate_limiter p) = (r1, clock1, rl1)"
    by (cases "acquire_request clock (rate_limiter p)")
  obtain r2 clock2 rl2 where a2: "acquire_tokens (estimated_tokens_of c) clock1 rl1 = (r2, clock2, rl2)"
    by (cases "acquire_tokens (estimated_tokens_of c) clock1 rl1")
  show ?thesis
  proof (cases r1)
    case (Returned b)
    show ?thesis
    proof (cases r2)
      case (Returned b2)
      show ?thesis
        apply (rule exI[of _ "snd ?L"])
        using na a1 a2 \<open>r1 = Returned b\<close> Returned
        by (simp add: make_request_with_retry_def case_prod_beta admissions_def token_admissions_def invocations_def)
    next
      case (Raised e)
      show ?thesis
        apply (rule exI[of _ "[]"])
        using a1 a2 \<open>r1 = Returned b\<close> Raised
        by (simp add: make_request_with_retry_def admissions_def token_admissions_def invocations_def)
    next
      case Pending
      show ?thesis
        apply (rule exI[of _ "[]"])
        using a1 a2 \<open>r1 = Returned b\<close> Pending
        by (simp add: make_request_with_retry_def admissions_def token_admissions_def invocations_def)
    qed
  next
    case (Raised e)
    show ?thesis
      apply (rule exI[of _ "[]"])
      using a1 Raised
      by (simp add: make_request_with_retry_def admissions_def token_admissions_def invocations_def)
  next
    case Pending
    show ?thesis
      apply (rule exI[of _ "[]"])
      using a1 Pending
      by (simp add: make_request_with_retry_def admissions_def token_admissions_def invocations_def)
  qed
qed


section \<open>The trailing window of the rate limiter\<close>

text \<open>
  With a clock that does not run backwards the recorded time stamps are sorted, and
  pruning the deque from the left keeps exactly the entries inside the window.
\<close>

lemma dropWhile_sorted_filter:
  "sorted (map f xs) \<Longrightarrow> dropWhile (\<lambda>x. f x < (c::real)) xs = filter (\<lambda>x. \<not> f x < c) xs"
proof (induction xs)
  case Nil
  then show ?case by simp
next
  case (Cons x xs)
  show ?case
  proof (cases "f x < c")
    case True
    with Cons show ?thesis by simp
  next
    case False
    with Cons.prems have "\<forall>y\<in>set xs. \<not> f y < c" by fastforce
    then have "filter (\<lambda>x. \<not> f x < c) xs = xs" by (simp add: filter_id_conv)
    with False show ?thesis by simp
  qed
qed

lemma prune_requests_filter:
  assumes "sorted recorded" "\<forall>ts\<in>set recorded. ts \<le> lo" "lo \<le> now"
  shows "prune_requests now (filter (in_window lo) recorded) = filter (in_window now) recorded"
proof -
  have s: "sorted (map (\<lambda>t. t) (filter (in_window lo) recorded))"
    using assms(1) by (simp add: sorted_wrt_filter)
  have "prune_requests now (filter (in_window lo) recorded)
          = dropWhile (\<lambda>t. t < now - 60) (filter (in_window lo) recorded)"
    unfolding prune_requests_def by (rule arg_cong2[where f=dropWhile]) (auto)
  also have "\<dots> = filter (\<lambda>t. \<not> t < now - 60) (filter (in_window lo) recorded)"
    using dropWhile_sorted_filter[OF s, of "now - 60"] by simp
  also have "\<dots> = filter (in_window now) recorded"
    using assms(2,3) by (auto simp: in_window_def intro!: filter_cong)
  finally show ?thesis .
qed

lemma length_filter_subset:
  assumes "\<forall>x\<in>set xs. P x \<longrightarrow> Q x"
  shows "length (filter P xs) \<le> length (filter Q xs)"
proof -
  have "filter P xs = filter P (filter Q xs)"
    using assms by (auto intro!: filter_cong)
  then show ?thesis by (metis length_filter_le)
qed

lemma request_passes_append:
  "request_passes (xs @ ys) rl recorded =
     request_passes ys (fst (request_passes xs rl recorded)) (snd (request_passes xs rl recorded))"
proof (induction xs arbitrary: rl recorded)
  case Nil
  show ?case by simp
next
  case (Cons now xs)
  obtain a rl' where att: "request_attempt now rl = (a, rl')" by (cases "request_attempt now rl")
  show ?case using Cons.IH att by (cases a) simp_all
qed

lemma acquire_request_passes:
  assumes "acquire_request clock rl = (Returned b, rest, rl')"
  shows "\<exists>used now. clock = used @ now # rest
           \<and> request_passes used rl recorded = (fst (request_passes used rl recorded), recorded)
           \<and> request_passes (used @ [now]) rl recorded = (rl', recorded @ [now])"
  using assms
proof (induction clock arbitrary: rl)
  case Nil
  then show ?case by simp
next
  case (Cons t clock)
  obtain a rl1 where att: "request_attempt t rl = (a, rl1)" by (cases "request_attempt t rl")
  show ?case
  proof (cases a)
    case Admitted
    with att Cons.prems have "rest = clock" "rl' = rl1" by simp_all
    with att Admitted have "t # clock = [] @ t # rest
        \<and> request_passes [] rl recorded = (fst (request_passes [] rl recorded), recorded)
        \<and> request_passes ([] @ [t]) rl recorded = (rl', recorded @ [t])" by simp
    then show ?thesis by blast
  next
    case (Saturated w)
    with att Cons.prems have "acquire_request clock rl1 = (Returned b, rest, rl')" by simp
    from Cons.IH[OF this] obtain used now where
      u: "clock = used @ now # rest"
         "request_passes used rl1 recorded = (fst (request_passes used rl1 recorded), recorded)"
         "request_passes (used @ [now]) rl1 recorded = (rl', recorded @ [now])" by blast
    have "t # clock = (t # used) @ now # rest
        \<and> request_passes (t # used) rl recorded = (fst (request_passes (t # used) rl recorded), recorded)
        \<and> request_passes ((t # used) @ [now]) rl recorded = (rl', recorded @ [now])"
      using u att Saturated by simp
    then show ?thesis by blast
  next
    case (Failed e)
    with att Cons.prems show ?thesis by simp
  qed
qed

lemma request_attempt_admitted_iff:
  "(fst (request_attempt now rl) = Admitted)
     = (int (length (prune_requests now (request_bucket rl))) < requests_per_minute rl)"
  by (auto simp: request_attempt_def Let_def split: list.splits)

lemma request_attempt_inv:
  assumes inv: "request_inv R lo rl recorded" and le: "lo \<le> now"
      and att: "request_attempt now rl = (a, rl')"
  shows "request_inv R now rl' (if a = Admitted then recorded @ [now] else recorded)"
proof -
  from inv have R: "requests_per_minute rl = R" and srt: "sorted recorded"
    and ub: "\<forall>ts\<in>set recorded. ts \<le> lo"
    and bk: "request_bucket rl = filter (in_window lo) recorded"
    and bound: "\<And>t. requests_in_window t recorded \<le> R"
    by (auto simp: request_inv_def)
  have pr: "prune_requests now (request_bucket rl) = filter (in_window now) recorded"
    unfolding bk by (rule prune_requests_filter[OF srt ub le])
  have ub': "\<forall>ts\<in>set recorded. ts \<le> now" using ub le by auto
  show ?thesis
  proof (cases "a = Admitted")
    case False
    with att have "request_bucket rl' = prune_requests now (request_bucket rl)"
      "requests_per_minute rl' = requests_per_minute rl"
      by (auto simp: request_attempt_def Let_def split: if_splits list.splits)
    with False R srt ub' pr bound show ?thesis by (simp add: request_inv_def)
  next
    case True
    with att have b': "request_bucket rl' = prune_requests now (request_bucket rl) @ [now]"
      and R': "requests_per_minute rl' = requests_per_minute rl"
      and room: "int (length (prune_requests now (request_bucket rl))) < R"
      using R by (auto simp: request_attempt_def Let_def split: if_splits list.splits)
    have s': "sorted (recorded @ [now])" using srt ub' by (simp add: sorted_append)
    have bk': "request_bucket rl' = filter (in_window now) (recorded @ [now])"
      by (simp add: b' pr in_window_def)
    have "requests_in_window t (recorded @ [now]) \<le> R" for t
    proof (cases "in_window t now")
      case False
      then show ?thesis using bound[of t] by (simp add: requests_in_window_def)
    next
      case True
      have "\<forall>ts\<in>set recorded. in_window t ts \<longrightarrow> in_window now ts"
        using True ub' by (auto simp: in_window_def)
      then have "length (filter (in_window t) recorded) \<le> length (filter (in_window now) recorded)"
        by (rule length_filter_subset)
      with room pr True show ?thesis by (simp add: requests_in_window_def)
    qed
    with True R R' s' bk' ub' show ?thesis by (simp add: request_inv_def)
  qed
qed

lemma request_inv_fresh: "0 \<le> R \<Longrightarrow> request_inv R lo (new_RateLimiter R T) []"
  by (simp add: request_inv_def new_RateLimiter_def requests_in_window_def)

lemma request_inv_after:
  assumes "0 \<le> R" "sorted schedule"
  shows "\<exists>lo. request_inv R lo (fst (request_passes schedule (new_RateLimiter R T) []))
                  (snd (request_passes schedule (new_RateLimiter R T) []))
            \<and> (\<forall>t\<in>set schedule. t \<le> lo) \<and> (schedule \<noteq> [] \<longrightarrow> lo = last schedule)"
  using assms(2)
proof (induction schedule rule: rev_induct)
  case Nil
  show ?case using request_inv_fresh[OF assms(1)] by auto
next
  case (snoc now schedule)
  let ?st = "request_passes schedule (new_RateLimiter R T) []"
  from snoc.prems have srt: "sorted schedule" and le: "\<forall>t\<in>set schedule. t \<le> now"
    by (auto simp: sorted_append)
  from snoc.IH[OF srt] obtain lo where inv: "request_inv R lo (fst ?st) (snd ?st)"
    and lo: "schedule \<noteq> [] \<longrightarrow> lo = last schedule" by blast
  have "\<exists>lo'. request_inv R lo' (fst ?st) (snd ?st) \<and> lo' \<le> now"
  proof (cases "schedule = []")
    case True
    then show ?thesis using request_inv_fresh[OF assms(1), of now T] by auto
  next
    case False
    with lo le have "lo \<le> now" by simp
    with inv show ?thesis by blast
  qed
  then obtain lo' where inv': "request_inv R lo' (fst ?st) (snd ?st)" and le': "lo' \<le> now" by blast
  obtain a rl' where att: "request_attempt now (fst ?st) = (a, rl')"
    by (cases "request_attempt now (fst ?st)")
  have eq: "request_passes (schedule @ [now]) (new_RateLimiter R T) []
          = (rl', if a = Admitted then snd ?st @ [now] else snd ?st)"
    unfolding request_passes_append using att by (cases a) simp_all
  from request_attempt_inv[OF inv' le' att] le show ?case
    unfolding eq by (intro exI[of _ now]) auto
qed

text \<open>
  Claim C1. Start from a new limiter with \<open>requests_per_minute = R\<close> (\<open>R \<ge> 0\<close>) and run any
  schedule of passes of \<^verbatim>\<open>acquire_request\<close> whose clock readings do not decrease. Then
  for every \<open>t\<close> the number of recorded time stamps in the window \<open>[t - 60, t]\<close> is at most
  \<open>R\<close>, before and after one more pass at \<open>now\<close>. That pass appends \<open>now\<close> exactly when
  the count in the window ending at \<open>now\<close> is strictly below \<open>R\<close>; otherwise it records
  nothing, and the caller sleeps and makes another pass later
  (\<open>acquire_request_passes\<close>).
\<close>

theorem request_window_bounded:
  assumes "0 \<le> R" "sorted (schedule @ [now])"
  shows "requests_in_window t (snd (request_passes schedule (new_RateLimiter R T) [])) \<le> R
       \<and> requests_in_window t (snd (request_passes (schedule @ [now]) (new_RateLimiter R T) [])) \<le> R
       \<and> (fst (request_attempt now (fst (request_passes schedule (new_RateLimiter R T) []))) = Admitted)
           = (requests_in_window now (snd (request_passes schedule (new_RateLimiter R T) [])) < R)
       \<and> snd (request_passes (schedule @ [now]) (new_RateLimiter R T) [])
           = (if requests_in_window now (snd (request_passes schedule (new_RateLimiter R T) [])) < R
              then snd (request_passes schedule (new_RateLimiter R T) []) @ [now]
              else snd (request_passes schedule (new_RateLimiter R T) []))"
proof -
  let ?st = "request_passes schedule (new_RateLimiter R T) []"
  let ?st' = "request_passes (schedule @ [now]) (new_RateLimiter R T) []"
  from assms(2) have srt: "sorted schedule" and le: "\<forall>t\<in>set schedule. t \<le> now"
    by (auto simp: sorted_append)
  from request_inv_after[OF assms(1) srt, of T] obtain lo where
    inv: "request_inv R lo (fst ?st) (snd ?st)" and lo: "schedule \<noteq> [] \<longrightarrow> lo = last schedule"
    by blast
  from request_inv_after[OF assms(1) assms(2), of T] obtain lo2 where
    inv2: "request_inv R lo2 (fst ?st') (snd ?st')" by blast
  have b1: "requests_in_window t (snd ?st) \<le> R" using inv by (simp add: request_inv_def)
  have b2: "requests_in_window t (snd ?st') \<le> R" using inv2 by (simp add: request_inv_def)
  have "\<exists>lo'. request_inv R lo' (fst ?st) (snd ?st) \<and> lo' \<le> now"
  proof (cases "schedule = []")
    case True
    then show ?thesis using request_inv_fresh[OF assms(1), of now T] by auto
  next
    case False
    with lo le have "lo \<le> now" by simp
    with inv show ?thesis by blast
  qed
  then obtain lo' where inv': "request_inv R lo' (fst ?st) (snd ?st)" and le': "lo' \<le> now" by blast
  have pr: "prune_requests now (request_bucket (fst ?st)) = filter (in_window now) (snd ?st)"
    using inv' le' prune_requests_filter[of "snd ?st" lo' now] by (simp add: request_inv_def)
  have R: "requests_per_minute (fst ?st) = R" using inv' by (simp add: request_inv_def)
  have iff: "(fst (request_attempt now (fst ?st)) = Admitted) = (requests_in_window now (snd ?st) < R)"
    unfolding request_attempt_admitted_iff pr R by (simp add: requests_in_window_def)
  obtain a rl' where att: "request_attempt now (fst ?st) = (a, rl')"
    by (cases "request_attempt now (fst ?st)")
  have eq: "snd ?st' = (if a = Admitted then snd ?st @ [now] else snd ?st)"
    unfolding request_passes_append using att by (cases a) simp_all
  have "a = Admitted \<longleftrightarrow> requests_in_window now (snd ?st) < R" using iff att by simp
  with eq have rec: "snd ?st' = (if requests_in_window now (snd ?st) < R then snd ?st @ [now] else snd ?st)"
    by simp
  show ?thesis using b1 b2 iff rec by blast
qed

theorem request_window_witness:
  "(0::int) \<le> 2 \<and> sorted ([0, 1, 2] @ [30::real])
   \<and> requests_in_window 30 (snd (request_passes ([0, 1, 2] @ [30]) (new_RateLimiter 2 40000) [])) \<le> 2
   \<and> snd (request_passes ([0, 1, 2] @ [30]) (new_RateLimiter 2 40000) []) = [0, 1]"
proof -
  have r: "(0::int) \<le> 2" by simp
  have s: "sorted ([0, 1, 2] @ [30::real])" by simp
  have v: "snd (request_passes ([0, 1, 2] @ [30]) (new_RateLimiter 2 40000) []) = [0, 1]"
    by (simp add: request_attempt_def prune_requests_def new_RateLimiter_def)
  have b: "requests_in_window 30 (snd (request_passes ([0, 1, 2] @ [30]) (new_RateLimiter 2 40000) [])) \<le> 2"
    using request_window_bounded[OF r s, of 30 40000] by blast
  show ?thesis using r s v b by blast
qed


section \<open>The token budget\<close>

lemma token_passes_append:
  "token_passes (xs @ ys) rl recorded =
     token_passes ys (fst (token_passes xs rl recorded)) (snd (token_passes xs rl recorded))"
proof (induction xs arbitrary: rl recorded)
  case Nil
  show ?case by simp
next
  case (Cons p xs)
  obtain now est where p: "p = (now, est)" by (cases p)
  obtain a rl' where att: "token_attempt now est rl = (a, rl')" by (cases "token_attempt now est rl")
  show ?case using Cons.IH att unfolding p by (cases a) simp_all
qed

lemma prune_tokens_filter:
  assumes "sorted (map fst recorded)" "\<forall>e\<in>set recorded. fst e \<le> lo" "lo \<le> now"
  shows "prune_tokens now (usage_in_window lo recorded) = usage_in_window now recorded"
proof -
  have s: "sorted (map fst (usage_in_window lo recorded))"
    using assms(1) unfolding usage_in_window_def by (rule sorted_filter)
  have "prune_tokens now (usage_in_window lo recorded)
          = dropWhile (\<lambda>e. fst e < now - 60) (usage_in_window lo recorded)"
    unfolding prune_tokens_def by (rule arg_cong2[where f=dropWhile]) (auto)
  also have "\<dots> = filter (\<lambda>e. \<not> fst e < now - 60) (usage_in_window lo recorded)"
    using dropWhile_sorted_filter[OF s, of "now - 60"] by simp
  also have "\<dots> = usage_in_window now recorded"
    unfolding usage_in_window_def using assms(2,3)
    by (auto simp: in_window_def intro!: filter_cong)
  finally show ?thesis .
qed

lemma token_attempt_bucket:
  assumes "token_attempt now est rl = (a, rl')"
  shows "tokens_per_minute rl' = tokens_per_minute rl
       \<and> token_bucket rl' = (if a = Admitted then prune_tokens now (token_bucket rl) @ [(now, est)]
                                else prune_tokens now (token_bucket rl))"
  using assms by (auto simp: token_attempt_def Let_def split: if_splits list.splits)

lemma token_attempt_admitted_iff:
  "(fst (token_attempt now est rl) = Admitted)
     = (sum_list (map snd (prune_tokens now (token_bucket rl))) + est \<le> tokens_per_minute rl
        \<or> prune_tokens now (token_bucket rl) = [])"
  by (auto simp: token_attempt_def Let_def split: list.splits)

lemma token_attempt_inv:
  assumes inv: "token_inv T lo rl recorded" and le: "lo \<le> now"
      and att: "token_attempt now est rl = (a, rl')"
  shows "token_inv T now rl' (if a = Admitted then recorded @ [(now, est)] else recorded)"
proof -
  from inv have T: "tokens_per_minute rl = T" and srt: "sorted (map fst recorded)"
    and ub: "\<forall>e\<in>set recorded. fst e \<le> lo"
    and bk: "token_bucket rl = usage_in_window lo recorded"
    by (auto simp: token_inv_def)
  have pr: "prune_tokens now (token_bucket rl) = usage_in_window now recorded"
    unfolding bk by (rule prune_tokens_filter[OF srt ub le])
  have ub': "\<forall>e\<in>set recorded. fst e \<le> now" using ub le by auto
  note b = token_attempt_bucket[OF att]
  show ?thesis
  proof (cases "a = Admitted")
    case False
    with b T srt ub' pr show ?thesis by (simp add: token_inv_def)
  next
    case True
    have "sorted (map fst (recorded @ [(now, est)]))" using srt ub' by (simp add: sorted_append)
    moreover have "token_bucket rl' = usage_in_window now (recorded @ [(now, est)])"
      using b True pr by (simp add: usage_in_window_def in_window_def)
    ultimately show ?thesis using True b T ub' by (simp add: token_inv_def)
  qed
qed

lemma token_inv_fresh: "token_inv T lo (new_RateLimiter R T) []"
  by (simp add: token_inv_def new_RateLimiter_def usage_in_window_def)

lemma token_inv_after:
  assumes "sorted (map fst schedule)"
  shows "\<exists>lo. token_inv T lo (fst (token_passes schedule (new_RateLimiter R T) []))
                  (snd (token_passes schedule (new_RateLimiter R T) []))
            \<and> (schedule \<noteq> [] \<longrightarrow> lo = fst (last schedule))"
  using assms
proof (induction schedule rule: rev_induct)
  case Nil
  show ?case using token_inv_fresh by auto
next
  case (snoc p schedule)
  obtain now est where p: "p = (now, est)" by (cases p)
  let ?st = "token_passes schedule (new_RateLimiter R T) []"
  from snoc.prems have srt: "sorted (map fst schedule)" and le: "\<forall>e\<in>set schedule. fst e \<le> now"
    unfolding p by (auto simp: sorted_append)
  from snoc.IH[OF srt] obtain lo where inv: "token_inv T lo (fst ?st) (snd ?st)"
    and lo: "schedule \<noteq> [] \<longrightarrow> lo = fst (last schedule)" by blast
  have "\<exists>lo'. token_inv T lo' (fst ?st) (snd ?st) \<and> lo' \<le> now"
  proof (cases "schedule = []")
    case True
    then show ?thesis using token_inv_fresh[of T now R] by auto
  next
    case False
    with lo le have "lo \<le> now" by simp
    with inv show ?thesis by blast
  qed
  then obtain lo' where inv': "token_inv T lo' (fst ?st) (snd ?st)" and le': "lo' \<le> now" by blast
  obtain a rl' where att: "token_attempt now est (fst ?st) = (a, rl')"
    by (cases "token_attempt now est (fst ?st)")
  have eq: "token_passes (schedule @ [p]) (new_RateLimiter R T) []
          = (rl', if a = Admitted then snd ?st @ [(now, est)] else snd ?st)"
    unfolding token_passes_append p using att by (cases a) simp_all
  from token_attempt_inv[OF inv' le' att] show ?case
    unfolding eq by (intro exI[of _ now]) (auto simp: p)
qed

text \<open>
  Claim C7, counterexample. On a new limiter with 40000 tokens per minute a call with an
  estimate of 50001 tokens returns at once and records its usage: the window then holds
  more than the limit.
\<close>

theorem oversized_estimate_admitted:
  "fst (acquire_tokens 50001 [0] (new_RateLimiter 60 40000)) = Returned True
   \<and> \<not> tokens_in_window 0 (token_bucket (snd (snd (acquire_tokens 50001 [0] (new_RateLimiter 60 40000)))))
        \<le> tokens_per_minute (new_RateLimiter 60 40000)"
  by (simp add: token_attempt_def prune_tokens_def new_RateLimiter_def tokens_in_window_def
       usage_in_window_def in_window_def)

text \<open>
  Claim C7, as amended. After any schedule of passes with a clock that does not run
  backwards, a pass at \<open>now\<close> records its usage exactly when the recorded usage in the
  window ending at \<open>now\<close> plus the estimate is within \<open>T\<close>, or that window is empty;
  otherwise nothing is recorded and the caller waits and passes again. When the estimate
  itself is at most \<open>T\<close>, the recorded total in the window ending at the moment of
  admission is at most \<open>T\<close>.
\<close>

theorem token_admission:
  assumes "sorted (map fst schedule @ [now])"
  shows "(fst (token_attempt now est (fst (token_passes schedule (new_RateLimiter R T) []))) = Admitted)
           = (tokens_in_window now (snd (token_passes schedule (new_RateLimiter R T) [])) + est \<le> T
              \<or> usage_in_window now (snd (token_passes schedule (new_RateLimiter R T) [])) = [])
       \<and> snd (token_passes (schedule @ [(now, est)]) (new_RateLimiter R T) [])
           = (if tokens_in_window now (snd (token_passes schedule (new_RateLimiter R T) [])) + est \<le> T
                 \<or> usage_in_window now (snd (token_passes schedule (new_RateLimiter R T) [])) = []
              then snd (token_passes schedule (new_RateLimiter R T) []) @ [(now, est)]
              else snd (token_passes schedule (new_RateLimiter R T) []))
       \<and> (est \<le> T \<longrightarrow>
            fst (token_attempt now est (fst (token_passes schedule (new_RateLimiter R T) []))) = Admitted \<longrightarrow>
            tokens_in_window now (snd (token_passes (schedule @ [(now, est)]) (new_RateLimiter R T) [])) \<le> T)"
proof -
  let ?st = "token_passes schedule (new_RateLimiter R T) []"
  let ?st' = "token_passes (schedule @ [(now, est)]) (new_RateLimiter R T) []"
  from assms have srt: "sorted (map fst schedule)" and le: "\<forall>e\<in>set schedule. fst e \<le> now"
    by (auto simp: sorted_append)
  from token_inv_after[OF srt, of T R] obtain lo where
    inv: "token_inv T lo (fst ?st) (snd ?st)" and lo: "schedule \<noteq> [] \<longrightarrow> lo = fst (last schedule)"
    by blast
  have "\<exists>lo'. token_inv T lo' (fst ?st) (snd ?st) \<and> lo' \<le> now"
  proof (cases "schedule = []")
    case True
    then show ?thesis using token_inv_fresh[of T now R] by auto
  next
    case False
    with lo le have "lo \<le> now" by simp
    with inv show ?thesis by blast
  qed
  then obtain lo' where inv': "token_inv T lo' (fst ?st) (snd ?st)" and le': "lo' \<le> now" by blast
  have pr: "prune_tokens now (token_bucket (fst ?st)) = usage_in_window now (snd ?st)"
    using inv' le' prune_tokens_filter[of "snd ?st" lo' now] by (simp add: token_inv_def)
  have T: "tokens_per_minute (fst ?st) = T" using inv' by (simp add: token_inv_def)
  have ub: "\<forall>e\<in>set (snd ?st). fst e \<le> now" using inv' le' by (auto simp: token_inv_def)
  let ?ok = "tokens_in_window now (snd ?st) + est \<le> T \<or> usage_in_window now (snd ?st) = []"
  have iff: "(fst (token_attempt now est (fst ?st)) = Admitted) = ?ok"
    unfolding token_attempt_admitted_iff pr T by (simp add: tokens_in_window_def)
  obtain a rl' where att: "token_attempt now est (fst ?st) = (a, rl')"
    by (cases "token_attempt now est (fst ?st)")
  have eq: "snd ?st' = (if a = Admitted then snd ?st @ [(now, est)] else snd ?st)"
    unfolding token_passes_append using att by (cases a) simp_all
  have aiff: "a = Admitted \<longleftrightarrow> ?ok" using iff att by simp
  with eq have rec: "snd ?st' = (if ?ok then snd ?st @ [(now, est)] else snd ?st)" by simp
  have bound: "tokens_in_window now (snd ?st') \<le> T" if "est \<le> T" "a = Admitted"
  proof -
    have tw: "tokens_in_window now (snd ?st') = tokens_in_window now (snd ?st) + est"
      using eq that(2) by (simp add: tokens_in_window_def usage_in_window_def in_window_def)
    from that(2) aiff have ?ok by simp
    then show ?thesis
    proof
      assume "tokens_in_window now (snd ?st) + est \<le> T"
      with tw show ?thesis by simp
    next
      assume "usage_in_window now (snd ?st) = []"
      then have "tokens_in_window now (snd ?st) = 0" by (simp add: tokens_in_window_def)
      with tw that(1) show ?thesis by simp
    qed
  qed
  show ?thesis using iff rec bound att by auto
qed

theorem token_admission_witness:
  "fst (token_attempt 10 5000 (fst (token_passes [(0, 30000)] (new_RateLimiter 60 40000) []))) = Admitted
   \<and> tokens_in_window 10 (snd (token_passes ([(0, 30000)] @ [(10, 5000)]) (new_RateLimiter 60 40000) [])) \<le> 40000
   \<and> (5000::int) \<le> 40000"
proof -
  have s: "sorted (map fst [(0::real, 30000::int)] @ [10])" by simp
  have a: "fst (token_attempt 10 5000 (fst (token_passes [(0, 30000)] (new_RateLimiter 60 40000) []))) = Admitted"
    by (simp add: token_attempt_def prune_tokens_def new_RateLimiter_def)
  have e: "(5000::int) \<le> 40000" by simp
  have b: "tokens_in_window 10 (snd (token_passes ([(0, 30000)] @ [(10, 5000)]) (new_RateLimiter 60 40000) [])) \<le> 40000"
    using token_admission[OF s, of 5000 60 40000] a e by blast
  show ?thesis using a b e by blast
qed


section \<open>The token estimate\<close>

lemma ceiling_quarter: "\<lceil>real L / 4\<rceil> = (int L + 3) div 4"
  by linarith

lemma length_join_space:
  "length (join_space xs) = sum_list (map length xs) + (length xs - 1)"
  by (induction xs rule: join_space.induct) auto

lemma floor_vs_ceiling:
  "(max 1 (int n div 4) = (int n + 3) div 4) = (n \<in> {1, 2, 3} \<or> (0 < n \<and> 4 dvd n))"
proof (cases "n < 4")
  case True
  then have "n = 0 \<or> n = 1 \<or> n = 2 \<or> n = 3" by arith
  then show ?thesis by auto
next
  case False
  then have "1 \<le> int n div 4" by simp
  then have m: "max 1 (int n div 4) = int n div 4" by simp
  have "(int n div 4 = (int n + 3) div 4) = (4 dvd n)" by presburger
  with False m show ?thesis by auto
qed

text \<open>
  Claim C6, counterexample. For one message of five characters and \<open>max_tokens = 100\<close> the
  estimate is 101, while \<open>ceil(5 / 4) + 100 = 102\<close>.
\<close>

theorem estimate_is_not_ceiling:
  "estimated_tokens_of hello_call
     \<noteq> spec_estimate (length (prompt_text hello_call)) (requested_max_tokens hello_call)
   \<and> estimated_tokens_of hello_call = 101
   \<and> length (prompt_text hello_call) = 5 \<and> requested_max_tokens hello_call = 100
   \<and> spec_estimate 5 100 = 102"
  by (simp add: estimated_tokens_of_def estimate_tokens_def prompt_text_def content_of_def
      requested_max_tokens_def spec_estimate_def hello_call_def)

text \<open>
  Claim C6, as amended. For every text of length \<open>L\<close> that is handed to
  \<^verbatim>\<open>_estimate_tokens\<close> and every number \<open>T\<close> of output tokens that the wrapper adds to the
  result, the estimate is \<open>max(1, floor(L / 4)) + T\<close>. It is within one of
  \<open>ceil(L / 4) + T\<close>, and equal to it exactly when \<open>L\<close> is 1, 2, 3 or a positive multiple
  of 4.
\<close>

theorem estimate_is_floor_with_minimum:
  "estimate_tokens text + T = max 1 (int (length text) div 4) + T
   \<and> \<bar>estimate_tokens text + T - spec_estimate (length text) T\<bar> \<le> 1
   \<and> ((estimate_tokens text + T = spec_estimate (length text) T)
        = (length text \<in> {1, 2, 3} \<or> (0 < length text \<and> 4 dvd length text)))"
proof -
  let ?n = "length text"
  have 1: "estimate_tokens text + T = max 1 (int ?n div 4) + T"
    by (simp add: estimate_tokens_def)
  have 2: "spec_estimate ?n T = (int ?n + 3) div 4 + T"
    by (simp add: spec_estimate_def ceiling_quarter)
  have 3: "\<bar>max 1 (int ?n div 4) - (int ?n + 3) div 4\<bar> \<le> 1"
    by (simp add: max_def) linarith
  show ?thesis
    using 3 floor_vs_ceiling[of ?n] unfolding 1 2 by simp
qed

section \<open>The provider registry\<close>

lemma setup_try_result:
  "setup_try cfg ctor (new_AIRouter :: 'p AIRouter) = (e, r) \<Longrightarrow>
     dom (providers r) = set (takeWhile (built ctor) (wanted cfg))
     \<and> (\<forall>n p. providers r n = Some p \<longrightarrow> ctor n = Inr p)
     \<and> default_provider r =
          (if \<forall>n\<in>set (wanted cfg). built ctor n
           then Some (get_ai_provider_for_environment (Some (environment cfg)) None) else None)
     \<and> (e = None) = (\<forall>n\<in>set (wanted cfg). built ctor n)"
  unfolding setup_try_def register_provider_def wanted_def built_def new_AIRouter_def
  by (cases "ctor ''ollama''"; cases "ctor ''openai''"; cases "ctor ''huggingface''";
      cases "ollama_enabled cfg"; cases "openai_enabled cfg \<and> truthy_str (openai_api_key cfg)";
      cases "huggingface_enabled cfg")
     (auto split: if_splits)

text \<open>
  Claim C9, counterexample. All three providers are enabled and configured; the
  constructor of the OpenAI provider raises. The HuggingFace provider, whose constructor
  would return, is not registered, and the default provider is not set.
\<close>

theorem one_failure_stops_setup:
  "setup_providers all_enabled openai_fails new_AIRouter
     = Inr \<lparr>providers = [''ollama'' \<mapsto> 1], default_provider = None\<rparr>
   \<and> openai_fails ''huggingface'' = Inr 3"
  by (simp add: setup_providers_def setup_try_def register_provider_def all_enabled_def
      openai_fails_def new_AIRouter_def truthy_str_def)

text \<open>
  Claim C9, as amended. An \<^verbatim>\<open>Exception\<close> of a constructor never leaves
  \<^verbatim>\<open>setup_providers\<close>. The registry holds exactly the wanted providers that come before
  the first one whose constructor raises, each with the object its constructor returned,
  and the default provider is set exactly when no constructor raises.
\<close>

theorem setup_stops_at_first_failure:
  assumes "\<forall>n m. ctor n \<noteq> Inl (BaseExc m)"
  shows "\<exists>r. setup_providers cfg ctor new_AIRouter = Inr r
       \<and> dom (providers r) = set (takeWhile (built ctor) (wanted cfg))
       \<and> (\<forall>n p. providers r n = Some p \<longrightarrow> ctor n = Inr p)
       \<and> default_provider r =
            (if \<forall>n\<in>set (wanted cfg). built ctor n
             then Some (get_ai_provider_for_environment (Some (environment cfg)) None) else None)"
proof -
  obtain e r where st: "setup_try cfg ctor new_AIRouter = (e, r)"
    by (cases "setup_try cfg ctor (new_AIRouter :: 'a AIRouter)")
  note res = setup_try_result[OF st]
  have "\<forall>m. e \<noteq> Some (BaseExc m)"
  proof (intro allI notI)
    fix m assume "e = Some (BaseExc m)"
    with st have "\<exists>n. ctor n = Inl (BaseExc m)"
      by (auto simp: setup_try_def register_provider_def split: if_splits sum.splits prod.splits option.splits)
    with assms show False by blast
  qed
  then have "setup_providers cfg ctor new_AIRouter = Inr r"
    using st by (auto simp: setup_providers_def split: option.split exn.split)
  with res show ?thesis by blast
qed

theorem setup_stops_at_first_failure_witness:
  "\<exists>r. setup_providers all_enabled openai_fails new_AIRouter = Inr r
       \<and> dom (providers r) = {''ollama''} \<and> default_provider r = None"
proof -
  have h: "\<forall>n m. openai_fails n \<noteq> Inl (BaseExc m)" by (simp add: openai_fails_def)
  have tw: "takeWhile (built openai_fails) (wanted all_enabled) = [''ollama'']"
    by (simp add: wanted_def all_enabled_def built_def openai_fails_def truthy_str_def)
  have nb: "\<not> (\<forall>n\<in>set (wanted all_enabled). built openai_fails n)"
    by (simp add: wanted_def all_enabled_def built_def openai_fails_def truthy_str_def)
  from setup_stops_at_first_failure[OF h, of all_enabled] tw nb show ?thesis by auto
qed



section \<open>Chat requests for a model that is not in the catalog\<close>

lemma load_model_returns_None: "fst (load_model p model) = PyNone"
  by (simp add: load_model_def split: provider_class.split)

lemma send_message_open:
  "active_connections m c = Some Open \<Longrightarrow>
     send_message c msg m = m\<lparr>outbox := outbox m @ [(c, msg)]\<rparr>"
  by (simp add: send_message_def)

lemma chat_request_absent_model:
  assumes "req_messages data = Some msgs" and "chat_messages msgs = Inr cms"
      and "get_provider r (req_provider data) = Inr p"
      and "active_connections m c = Some Open" and "connection_metadata m c = Some md"
      and "(case req_model data of None \<Rightarrow> ''llama3.1'' | Some x \<Rightarrow> x) \<notin> set (models p)"
  shows "snd (handle_chat_request c data (r, m)) =
           m\<lparr>connection_metadata := (connection_metadata m)
                 (c \<mapsto> md\<lparr>current_provider :=
                               (if truthy_str (req_provider data) then req_provider data
                                else default_provider r),
                             current_model :=
                               Some (case req_model data of None \<Rightarrow> ''llama3.1'' | Some x \<Rightarrow> x)\<rparr>),
              outbox := outbox m @
                [(c, ModelLoading (case req_model data of None \<Rightarrow> ''llama3.1'' | Some x \<Rightarrow> x)
                       (if truthy_str (req_provider data) then req_provider data
                        else default_provider r)),
                 (c, ErrorMsg (''Failed to load model: '' @
                       (case req_model data of None \<Rightarrow> ''llama3.1'' | Some x \<Rightarrow> x)))]\<rparr>"
proof -
  obtain s p' where lm: "load_model p (case req_model data of None \<Rightarrow> ''llama3.1'' | Some x \<Rightarrow> x) = (s, p')"
    by (cases "load_model p (case req_model data of None \<Rightarrow> ''llama3.1'' | Some x \<Rightarrow> x)")
  with load_model_returns_None[of p "case req_model data of None \<Rightarrow> ''llama3.1'' | Some x \<Rightarrow> x"]
  have s: "s = PyNone" by simp
  show ?thesis
    using assms lm s
    by (simp add: handle_chat_request_def Let_def send_error_def send_message_def)
qed

text \<open>
  Claim C8. A chat request on an open connection, with valid messages and a provider that
  resolves, for a model that is not in the provider's catalog: the messages sent start
  with \<^verbatim>\<open>model_loading\<close> and are either \<^verbatim>\<open>model_loading\<close>, \<^verbatim>\<open>model_loaded\<close>,
  \<^verbatim>\<open>stream_start\<close>, tokens, \<^verbatim>\<open>stream_complete\<close>, or \<^verbatim>\<open>model_loading\<close> and an
  \<^verbatim>\<open>error\<close>; there is no \<^verbatim>\<open>stream_start\<close> among them.
\<close>

theorem absent_model_events:
  assumes "req_messages data = Some msgs" and "chat_messages msgs = Inr cms"
      and "get_provider r (req_provider data) = Inr p"
      and "active_connections m c = Some Open" and "connection_metadata m c = Some md"
      and "model = (case req_model data of None \<Rightarrow> ''llama3.1'' | Some x \<Rightarrow> x)"
      and "model \<notin> set (models p)"
  shows "(\<exists>name. take 1 (sent_since m (snd (handle_chat_request c data (r, m))))
                   = [(c, ModelLoading model name)])
       \<and> ((\<exists>name tokens full.
              sent_since m (snd (handle_chat_request c data (r, m)))
                = [(c, ModelLoading model name), (c, ModelLoaded model name), (c, StreamStart model name)]
                    @ tokens @ [(c, StreamComplete full model name)])
           \<or> (\<exists>name text.
              sent_since m (snd (handle_chat_request c data (r, m)))
                = [(c, ModelLoading model name), (c, ErrorMsg text)]))
       \<and> list_all (\<lambda>e. \<not> is_stream_start (snd e))
            (sent_since m (snd (handle_chat_request c data (r, m))))"
proof -
  have "(case req_model data of None \<Rightarrow> ''llama3.1'' | Some x \<Rightarrow> x) \<notin> set (models p)"
    using assms(6,7) by simp
  from chat_request_absent_model[OF assms(1-5) this] assms(6)[symmetric]
  have "sent_since m (snd (handle_chat_request c data (r, m)))
          = [(c, ModelLoading model (if truthy_str (req_provider data) then req_provider data
                                     else default_provider r)),
             (c, ErrorMsg (''Failed to load model: '' @ model))]"
    by (simp add: sent_since_def)
  then show ?thesis by (simp add: is_stream_start_def)
qed

theorem absent_model_events_witness:
  "sent_since (open_session ''s1'')
      (snd (handle_chat_request ''s1'' (hello_request ''m1'') (dev_router, open_session ''s1'')))
     = [(''s1'', ModelLoading ''m1'' (Some ''ollama'')), (''s1'', ErrorMsg ''Failed to load model: m1'')]
   \<and> list_all (\<lambda>e. \<not> is_stream_start (snd e))
        (sent_since (open_session ''s1'')
           (snd (handle_chat_request ''s1'' (hello_request ''m1'') (dev_router, open_session ''s1''))))"
proof -
  have 1: "req_messages (hello_request ''m1'') = Some [[(''role'', ''user''), (''content'', ''hello'')]]"
    by (simp add: hello_request_def)
  have 2: "chat_messages [[(''role'', ''user''), (''content'', ''hello'')]] = Inr [(''user'', ''hello'')]"
    by (simp add: chat_message_def)
  have 3: "get_provider dev_router (req_provider (hello_request ''m1'')) = Inr ollama_llama"
    by (simp add: get_provider_def dev_router_def hello_request_def truthy_str_def)
  have 4: "active_connections (open_session ''s1'') ''s1'' = Some Open" by (simp add: open_session_def)
  have 5: "connection_metadata (open_session ''s1'') ''s1''
             = Some \<lparr>messages_sent = 0, current_provider = None, current_model = None\<rparr>"
    by (simp add: open_session_def)
  have 6: "''m1'' = (case req_model (hello_request ''m1'') of None \<Rightarrow> ''llama3.1'' | Some x \<Rightarrow> x)" by (simp add: hello_request_def)
  have 7: "''m1'' \<notin> set (models ollama_llama)" by (simp add: ollama_llama_def)
  have v: "sent_since (open_session ''s1'')
      (snd (handle_chat_request ''s1'' (hello_request ''m1'') (dev_router, open_session ''s1'')))
     = [(''s1'', ModelLoading ''m1'' (Some ''ollama'')), (''s1'', ErrorMsg ''Failed to load model: m1'')]"
    using chat_request_absent_model[OF 1 2 3 4 5] 7
    by (simp add: sent_since_def open_session_def hello_request_def dev_router_def truthy_str_def)
  from absent_model_events[OF 1 2 3 4 5 6 7]
  have "list_all (\<lambda>e. \<not> is_stream_start (snd e))
        (sent_since (open_session ''s1'')
           (snd (handle_chat_request ''s1'' (hello_request ''m1'') (dev_router, open_session ''s1''))))"
    by blast
  with v show ?thesis by blast
qed

text \<open>
  Claim C10. \<^verbatim>\<open>load_model\<close> of every provider returns \<^verbatim>\<open>None\<close>, so the same request
  always sends \<^verbatim>\<open>model_loading\<close> and then the error \<^verbatim>\<open>Failed to load model\<close>, creates no
  stream task and registers no stream.
\<close>

theorem absent_model_always_fails:
  assumes "req_messages data = Some msgs" and "chat_messages msgs = Inr cms"
      and "get_provider r (req_provider data) = Inr p"
      and "active_connections m c = Some Open" and "connection_metadata m c = Some md"
      and "model = (case req_model data of None \<Rightarrow> ''llama3.1'' | Some x \<Rightarrow> x)"
      and "model \<notin> set (models p)"
  shows "fst (load_model p model) = PyNone
       \<and> outbox (snd (handle_chat_request c data (r, m))) =
           outbox m @ [(c, ModelLoading model (if truthy_str (req_provider data) then req_provider data
                                               else default_provider r)),
                       (c, ErrorMsg (''Failed to load model: '' @ model))]
       \<and> tasks (snd (handle_chat_request c data (r, m))) = tasks m
       \<and> active_streams (snd (handle_chat_request c data (r, m))) = active_streams m"
proof -
  have "(case req_model data of None \<Rightarrow> ''llama3.1'' | Some x \<Rightarrow> x) \<notin> set (models p)"
    using assms(6,7) by simp
  from chat_request_absent_model[OF assms(1-5) this] assms(6)[symmetric] load_model_returns_None[of p model]
  show ?thesis by simp
qed

theorem absent_model_always_fails_witness:
  "fst (load_model ollama_llama ''m1'') = PyNone
   \<and> outbox (snd (handle_chat_request ''s1'' (hello_request ''m1'') (dev_router, open_session ''s1''))) =
        [(''s1'', ModelLoading ''m1'' (Some ''ollama'')),
         (''s1'', ErrorMsg ''Failed to load model: m1'')]
   \<and> tasks (snd (handle_chat_request ''s1'' (hello_request ''m1'') (dev_router, open_session ''s1''))) = []"
proof -
  have 1: "req_messages (hello_request ''m1'') = Some [[(''role'', ''user''), (''content'', ''hello'')]]"
    by (simp add: hello_request_def)
  have 2: "chat_messages [[(''role'', ''user''), (''content'', ''hello'')]] = Inr [(''user'', ''hello'')]"
    by (simp add: chat_message_def)
  have 3: "get_provider dev_router (req_provider (hello_request ''m1'')) = Inr ollama_llama"
    by (simp add: get_provider_def dev_router_def hello_request_def truthy_str_def)
  have 4: "active_connections (open_session ''s1'') ''s1'' = Some Open" by (simp add: open_session_def)
  have 5: "connection_metadata (open_session ''s1'') ''s1''
             = Some \<lparr>messages_sent = 0, current_provider = None, current_model = None\<rparr>"
    by (simp add: open_session_def)
  have 6: "''m1'' = (case req_model (hello_request ''m1'') of None \<Rightarrow> ''llama3.1'' | Some x \<Rightarrow> x)" by (simp add: hello_request_def)
  have 7: "''m1'' \<notin> set (models ollama_llama)" by (simp add: ollama_llama_def)
  from absent_model_always_fails[OF 1 2 3 4 5 6 7]
  show ?thesis by (simp add: open_session_def hello_request_def dev_router_def truthy_str_def)
qed

text \<open>
  This is so even when the provider can serve the model: a HuggingFace provider whose
  verification of the model succeeds enters it in the catalog, and the request fails all
  the same.
\<close>

lemma huggingface_catalog_after_load:
  assumes "provider_class p = HuggingFace" "loadable p model"
  shows "fst (load_model p model) = PyNone \<and> model \<in> set (models (snd (load_model p model)))"
  using assms by (simp add: load_model_def dict_set_def)



section \<open>Streams of one connection\<close>

text \<open>
  A handler that gets to \<^verbatim>\<open>_start_chat_stream\<close> cancels the task that is registered for
  the connection and registers the new one.
\<close>

lemma start_stream_begin_cancels_registered:
  assumes "active_streams m c = Some old" "old < length (tasks m)"
  shows "task_state (tasks (snd (start_stream_begin c m)) ! old) \<noteq> Running
       \<and> active_streams (snd (start_stream_begin c m)) c = Some (length (tasks m))
       \<and> task_state (tasks (snd (start_stream_begin c m)) ! length (tasks m)) = Running"
  using assms
  by (auto simp: start_stream_begin_def cancel_task_def Let_def nth_append)

text \<open>
  Claim C2, at a failing input. Two handlers work on connection \<open>s1\<close>. The first starts
  stream 0; the second starts stream 1, which cancels stream 0; the first handler resumes
  from its \<^verbatim>\<open>await\<close> and its \<^verbatim>\<open>finally\<close> block deletes the entry of \<open>s1\<close>, which by now
  holds stream 1. A third chat request then finds no entry, cancels nothing and starts
  stream 2: streams 1 and 2 are running together.
\<close>

theorem third_request_leaves_two_streams:
  "active_stream_tasks ''s1''
     (run [StartChatStream ''s1'', StartChatStream ''s1'', HandlerResumes 0, StartChatStream ''s1'']
        (open_session ''s1'')) = [1, 2]
   \<and> active_streams
        (run [StartChatStream ''s1'', StartChatStream ''s1'', HandlerResumes 0] (open_session ''s1'')) ''s1''
       = None
   \<and> active_stream_tasks ''s1''
        (run [StartChatStream ''s1'', StartChatStream ''s1'', HandlerResumes 0] (open_session ''s1'')) = [1]"
  by code_simp

end
